theory Spec2Isabelle
  imports Main
begin

section \<open>Strings and UTF-8 decoding\<close>

text \<open>
  A Go \<^verbatim>\<open>string\<close> and a Go \<^verbatim>\<open>[]byte\<close> are byte sequences; both are modelled as
  \<^typ>\<open>string\<close> (a list of 8-bit characters). Wherever the Go code steps through a
  string by Unicode scalar value (\<^verbatim>\<open>utf8.DecodeRune\<close>, \<^verbatim>\<open>utf8.RuneCountInString\<close>, the
  \<^verbatim>\<open>regexp\<close> package) the model steps with \<open>DecodeRune\<close> below, which is the decoder
  of Go's standard library \<^verbatim>\<open>unicode/utf8\<close>: an invalid or truncated encoding
  decodes to \<^verbatim>\<open>RuneError\<close> (U+FFFD) of width 1.
\<close>

abbreviation (input) LF :: char where "LF \<equiv> CHR 0x0A"
abbreviation (input) SQ :: char where "SQ \<equiv> CHR 0x27"
abbreviation (input) DQ :: char where "DQ \<equiv> CHR 0x22"
abbreviation (input) BS :: char where "BS \<equiv> CHR 0x5C"
abbreviation (input) BT :: char where "BT \<equiv> CHR 0x60"

definition RuneError :: nat where
  "RuneError = 0xFFFD"

text \<open>
  The table \<^verbatim>\<open>first\<close> of \<^verbatim>\<open>unicode/utf8\<close> together with \<^verbatim>\<open>acceptRanges\<close>: what the
  leading byte announces. \<open>Lead sz lo hi\<close> is a sequence of \<open>sz\<close> bytes whose second
  byte must lie in \<open>lo..hi\<close>.
\<close>

datatype lead = Ascii | Invalid | Lead nat nat nat

definition first :: "nat \<Rightarrow> lead" where
  "first p0 =
     (if p0 < 0x80 then Ascii
      else if p0 < 0xC2 then Invalid
      else if p0 < 0xE0 then Lead 2 0x80 0xBF
      else if p0 = 0xE0 then Lead 3 0xA0 0xBF
      else if p0 < 0xED then Lead 3 0x80 0xBF
      else if p0 = 0xED then Lead 3 0x80 0x9F
      else if p0 < 0xF0 then Lead 3 0x80 0xBF
      else if p0 = 0xF0 then Lead 4 0x90 0xBF
      else if p0 < 0xF4 then Lead 4 0x80 0xBF
      else if p0 = 0xF4 then Lead 4 0x80 0x8F
      else Invalid)"

text \<open>
  \<^verbatim>\<open>utf8.DecodeRune(p)\<close>: the rune and its width in bytes. \<open>outside lo hi b\<close> is the
  test \<^verbatim>\<open>b < lo || hi < b\<close>, \<open>byte_at p i\<close> is \<^verbatim>\<open>p[i]\<close> (read only where
  \<open>i < length p\<close>). The masks and shifts of the Go code are written as \<open>mod\<close> and
  multiplication (the bit fields are disjoint).
\<close>

definition outside :: "nat \<Rightarrow> nat \<Rightarrow> nat \<Rightarrow> bool" where
  "outside lo hi b \<longleftrightarrow> b < lo \<or> hi < b"

definition byte_at :: "string \<Rightarrow> nat \<Rightarrow> nat" where
  "byte_at p i = of_char (p ! i)"

definition DecodeRune :: "string \<Rightarrow> nat \<times> nat" where
  "DecodeRune p =
     (case p of
        [] \<Rightarrow> (RuneError, 0)
      | c0 # _ \<Rightarrow>
          (case first (of_char c0) of
             Ascii \<Rightarrow> (of_char c0, 1)
           | Invalid \<Rightarrow> (RuneError, 1)
           | Lead sz lo hi \<Rightarrow>
               if length p < sz then (RuneError, 1)
               else if outside lo hi (byte_at p 1) then (RuneError, 1)
               else if sz \<le> 2 then ((byte_at p 0 mod 32) * 64 + byte_at p 1 mod 64, 2)
               else if outside 0x80 0xBF (byte_at p 2) then (RuneError, 1)
               else if sz \<le> 3
                 then ((byte_at p 0 mod 16) * 4096 + (byte_at p 1 mod 64) * 64
                         + byte_at p 2 mod 64, 3)
               else if outside 0x80 0xBF (byte_at p 3) then (RuneError, 1)
               else ((byte_at p 0 mod 8) * 262144 + (byte_at p 1 mod 64) * 4096
                       + (byte_at p 2 mod 64) * 64 + byte_at p 3 mod 64, 4)))"

definition rune_size :: "string \<Rightarrow> nat" where
  "rune_size p = snd (DecodeRune p)"

lemma first_Lead_cases:
  "first n = Lead sz lo hi \<Longrightarrow> (sz = 2 \<or> sz = 3 \<or> sz = 4) \<and> 0x80 \<le> lo \<and> 0xC2 \<le> n"
  by (simp add: first_def split: if_splits)

lemma first_Ascii_iff: "first n = Ascii \<longleftrightarrow> n < 0x80"
  by (simp add: first_def)

lemma rune_size_Nil [simp]: "rune_size [] = 0"
  by (simp add: rune_size_def DecodeRune_def)

lemma rune_size_Ascii: "first (of_char c) = Ascii \<Longrightarrow> rune_size (c # cs) = 1"
  by (simp add: rune_size_def DecodeRune_def)

lemma rune_size_Invalid: "first (of_char c) = Invalid \<Longrightarrow> rune_size (c # cs) = 1"
  by (simp add: rune_size_def DecodeRune_def)

lemma rune_size_Lead:
  "first (of_char c) = Lead sz lo hi \<Longrightarrow>
   rune_size (c # cs) =
     (if length (c # cs) < sz then 1
      else if outside lo hi (byte_at (c # cs) 1) then 1
      else if sz \<le> 2 then 2
      else if outside 0x80 0xBF (byte_at (c # cs) 2) then 1
      else if sz \<le> 3 then 3
      else if outside 0x80 0xBF (byte_at (c # cs) 3) then 1
      else 4)"
  by (simp add: rune_size_def DecodeRune_def)

lemma rune_size_bounds: "p \<noteq> [] \<Longrightarrow> 1 \<le> rune_size p \<and> rune_size p \<le> length p \<and> rune_size p \<le> 4"
proof (cases p)
  case Nil
  then show "p \<noteq> [] \<Longrightarrow> ?thesis" by simp
next
  case (Cons c cs)
  show ?thesis
  proof (cases "first (of_char c)")
    case Ascii
    then show ?thesis using Cons by (simp add: rune_size_Ascii)
  next
    case Invalid
    then show ?thesis using Cons by (simp add: rune_size_Invalid)
  next
    case (Lead sz lo hi)
    from first_Lead_cases [OF Lead] have "sz = 2 \<or> sz = 3 \<or> sz = 4" by simp
    then show ?thesis using Cons by (auto simp: rune_size_Lead [OF Lead] Suc_le_eq)
  qed
qed

lemma rune_size_pos [simp]: "0 < rune_size (c # cs)"
  using rune_size_bounds [of "c # cs"] by simp

lemma rune_size_le_length: "rune_size p \<le> length p"
  using rune_size_bounds [of p] by (cases p) simp_all

lemma length_drop_rune_size [simp]: "length (drop (rune_size (c # cs)) (c # cs)) < Suc (length cs)"
  using rune_size_pos [of c cs] by simp

lemma length_drop_rune_size' [simp]: "cs \<noteq> [] \<Longrightarrow> length (drop (rune_size cs) cs) < Suc (length cs)"
  by simp

section \<open>Package shellwords\<close>

text \<open>
  The regular expressions of \<^verbatim>\<open>Split\<close> and \<^verbatim>\<open>Escape\<close> are compiled by hand into
  scanners. Go's \<^verbatim>\<open>regexp\<close> is leftmost-first (Perl-like preference order), reads its
  input rune by rune, and its \<^verbatim>\<open>\s\<close> is the ASCII class \<^verbatim>\<open>[\t\n\f\r ]\<close>; \<^verbatim>\<open>.\<close> is any
  rune but LF.
\<close>

definition isspace :: "char \<Rightarrow> bool" where
  "isspace c \<longleftrightarrow> c = CHR 0x09 \<or> c = LF \<or> c = CHR 0x0C \<or> c = CHR 0x0D \<or> c = CHR '' ''"

text \<open>The class \<^verbatim>\<open>[^\s\\\'\"]\<close> of the first alternative.\<close>

definition wordchar :: "char \<Rightarrow> bool" where
  "wordchar c \<longleftrightarrow> \<not> isspace c \<and> c \<noteq> BS \<and> c \<noteq> SQ \<and> c \<noteq> DQ"

text \<open>
  Which alternative of
  \<^verbatim>\<open>\s*(?:([^\s\\\'\"]+)|'([^\']*)'|"((?:[^\"\\]|\\.)*)"|(\\.?)|(\S))(\s|$)?\<close>
  took part in a match, with its capture (groups 1 to 5; exactly one of them is non-nil
  in any match).
\<close>

datatype capture = Word string | Sq string | Dq string | Esc string | Garbage string

text \<open>
  \<^verbatim>\<open>.?\<close> after the backslash of group 4: the width of the rune it takes (0 at the end
  of the input and before LF).
\<close>

definition dot_opt :: "string \<Rightarrow> nat" where
  "dot_opt s = (case s of [] \<Rightarrow> 0 | c # _ \<Rightarrow> if c = LF then 0 else rune_size s)"

text \<open>
  \<^verbatim>\<open>((?:[^\"\\]|\\.)*)"\<close> after the opening double quote: the captured body and the
  input after the closing quote, or \<open>None\<close> when the alternative does not match. A
  backslash pairs with the rune after it, which \<^verbatim>\<open>.\<close> does not let be LF; no other
  decomposition of the body exists, so backtracking finds nothing else.
\<close>

function dq_scan :: "string \<Rightarrow> (string \<times> string) option" where
  "dq_scan [] = None"
| "dq_scan (c # cs) =
     (if c = DQ then Some ([], cs)
      else if c = BS then
        (if cs = [] \<or> hd cs = LF then None
         else map_option (\<lambda>(body, rest). (c # take (rune_size cs) cs @ body, rest))
                (dq_scan (drop (rune_size cs) cs)))
      else map_option (\<lambda>(body, rest). (c # body, rest)) (dq_scan cs))"
  by pat_completeness auto
termination
  by (relation "measure length") auto

text \<open>
  One match of the regular expression at the head of \<open>s\<close>: the alternative, whether group
  6 \<^verbatim>\<open>(\s|$)?\<close> took part, and the input after the match; \<open>None\<close> when nothing but
  white space is left (no further match). The alternatives are tried in the order of the
  pattern.
\<close>

definition sep_after :: "string \<Rightarrow> bool \<times> string" where
  "sep_after s = (case s of [] \<Rightarrow> (True, []) | c # cs \<Rightarrow> if isspace c then (True, cs) else (False, s))"

definition re_match :: "string \<Rightarrow> (capture \<times> bool \<times> string) option" where
  "re_match s =
     (case dropWhile isspace s of
        [] \<Rightarrow> None
      | c # cs \<Rightarrow>
          if wordchar c then
            Some (Word (takeWhile wordchar (c # cs)), sep_after (dropWhile wordchar (c # cs)))
          else if c = SQ \<and> SQ \<in> set cs then
            Some (Sq (takeWhile (\<lambda>x. x \<noteq> SQ) cs), sep_after (tl (dropWhile (\<lambda>x. x \<noteq> SQ) cs)))
          else if c = DQ \<and> dq_scan cs \<noteq> None then
            (case dq_scan cs of
               Some (body, rest) \<Rightarrow> Some (Dq body, sep_after rest)
             | None \<Rightarrow> None)
          else if c = BS then
            Some (Esc (c # take (dot_opt cs) cs), sep_after (drop (dot_opt cs) cs))
          else
            Some (Garbage (take (rune_size (c # cs)) (c # cs)),
                  sep_after (drop (rune_size (c # cs)) (c # cs))))"

text \<open>\<^verbatim>\<open>reDq.ReplaceAllString(dq, `$1`)\<close> with \<^verbatim>\<open>reDq = \\([$`"\\\n])\<close>.\<close>

fun unescape_dq :: "string \<Rightarrow> string" where
  "unescape_dq (c # d # ds) =
     (if c = BS \<and> (d = CHR ''$'' \<or> d = BT \<or> d = DQ \<or> d = BS \<or> d = LF)
      then d # unescape_dq ds else c # unescape_dq (d # ds))"
| "unescape_dq cs = cs"

text \<open>\<^verbatim>\<open>reEsc.ReplaceAllString(esc, `$1`)\<close> with \<^verbatim>\<open>reEsc = \\(.)\<close>.\<close>

function unescape_esc :: "string \<Rightarrow> string" where
  "unescape_esc [] = []"
| "unescape_esc (c # cs) =
     (if c = BS \<and> cs \<noteq> [] \<and> hd cs \<noteq> LF
      then take (rune_size cs) cs @ unescape_esc (drop (rune_size cs) cs)
      else c # unescape_esc cs)"
  by pat_completeness auto
termination
  by (relation "measure length") auto

datatype shell_error = UnmatchedQuote string

definition token_of :: "capture \<Rightarrow> string" where
  "token_of cap =
     (case cap of
        Word w \<Rightarrow> w
      | Sq s \<Rightarrow> s
      | Dq d \<Rightarrow> unescape_dq d
      | Esc e \<Rightarrow> unescape_esc e
      | Garbage g \<Rightarrow> [])"

lemma length_sep_after: "length (snd (sep_after s)) \<le> length s"
  by (simp add: sep_after_def split: list.splits)

lemma dq_scan_length: "dq_scan s = Some (body, rest) \<Longrightarrow> length rest < length s"
proof (induction s arbitrary: body rest rule: dq_scan.induct)
  case 1
  then show ?case by simp
next
  case (2 c cs)
  show ?case
  proof (cases "c = DQ")
    case True
    with "2.prems" show ?thesis by auto
  next
    case notdq: False
    show ?thesis
    proof (cases "c = BS")
      case True
      with notdq "2.prems" obtain b where
        ne: "cs \<noteq> []" "hd cs \<noteq> LF" and rec: "dq_scan (drop (rune_size cs) cs) = Some (b, rest)"
        by (auto split: if_splits)
      from "2.IH"(1) [OF notdq True _ rec] ne
      have "length rest < length (drop (rune_size cs) cs)" by simp
      then show ?thesis by simp
    next
      case False
      with notdq "2.prems" obtain b where rec: "dq_scan cs = Some (b, rest)"
        by (auto split: if_splits)
      from "2.IH"(2) [OF notdq False rec] show ?thesis by simp
    qed
  qed
qed

lemma re_match_length:
  assumes "re_match s = Some (cap, sep, rest)"
  shows "length rest < length s"
proof -
  obtain c cs where dw: "dropWhile isspace s = c # cs"
    using assms by (auto simp: re_match_def split: list.splits)
  have le: "length (c # cs) \<le> length s"
    using length_dropWhile_le [of isspace s] dw by simp
  have sep: "\<And>t. length (snd (sep_after t)) \<le> length t"
    by (rule length_sep_after)
  consider (w) "wordchar c"
    | (s) "\<not> wordchar c" "c = SQ \<and> SQ \<in> set cs"
    | (d) "\<not> wordchar c" "\<not> (c = SQ \<and> SQ \<in> set cs)" "c = DQ \<and> dq_scan cs \<noteq> None"
    | (e) "\<not> wordchar c" "\<not> (c = SQ \<and> SQ \<in> set cs)" "\<not> (c = DQ \<and> dq_scan cs \<noteq> None)" "c = BS"
    | (g) "\<not> wordchar c" "\<not> (c = SQ \<and> SQ \<in> set cs)" "\<not> (c = DQ \<and> dq_scan cs \<noteq> None)" "c \<noteq> BS"
    by blast
  then have "length rest < length (c # cs)"
  proof cases
    case w
    then have "rest = snd (sep_after (dropWhile wordchar (c # cs)))"
      using assms dw by (simp add: re_match_def)
    moreover have "length (dropWhile wordchar (c # cs)) \<le> length cs"
      using w length_dropWhile_le [of wordchar cs] by simp
    ultimately show ?thesis
      using sep [of "dropWhile wordchar (c # cs)"] by simp
  next
    case s
    then have r: "rest = snd (sep_after (tl (dropWhile (\<lambda>x. x \<noteq> SQ) cs)))"
      using assms dw by (simp add: re_match_def)
    have "length (tl (dropWhile (\<lambda>x. x \<noteq> SQ) cs)) \<le> length cs"
      using length_dropWhile_le [of "\<lambda>x. x \<noteq> SQ" cs] by simp
    then show ?thesis
      using sep [of "tl (dropWhile (\<lambda>x. x \<noteq> SQ) cs)"] r by simp
  next
    case d
    then obtain body r where sc: "dq_scan cs = Some (body, r)" by auto
    with d have "rest = snd (sep_after r)"
      using assms dw by (simp add: re_match_def)
    then show ?thesis
      using sep [of r] dq_scan_length [OF sc] by simp
  next
    case e
    then have "rest = snd (sep_after (drop (dot_opt cs) cs))"
      using assms dw by (auto simp: re_match_def split: if_splits)
    then show ?thesis
      using sep [of "drop (dot_opt cs) cs"] by simp
  next
    case g
    then have "rest = snd (sep_after (drop (rune_size (c # cs)) (c # cs)))"
      using assms dw by (auto simp: re_match_def split: if_splits)
    then show ?thesis
      using sep [of "drop (rune_size (c # cs)) (c # cs)"] length_drop_rune_size [of c cs]
      by (simp del: length_drop_rune_size length_drop)
  qed
  with le show ?thesis by simp
qed

text \<open>
  The loop of \<^verbatim>\<open>Split\<close> over the matches of \<^verbatim>\<open>FindAllStringSubmatchIndex\<close>, which are
  consecutive: each match is searched from the end of the one before. \<open>input\<close> is the
  whole input, quoted in the error.
\<close>

function Split_loop :: "string \<Rightarrow> string \<Rightarrow> string \<Rightarrow> string list \<Rightarrow> shell_error + string list" where
  "Split_loop input s field words =
     (case re_match s of
        None \<Rightarrow> Inr words
      | Some (cap, sep, rest) \<Rightarrow>
          (case cap of
             Garbage g \<Rightarrow> Inl (UnmatchedQuote input)
           | _ \<Rightarrow>
               if sep then Split_loop input rest [] (words @ [field @ token_of cap])
               else Split_loop input rest (field @ token_of cap) words))"
  by pat_completeness auto
termination
  by (relation "measure (\<lambda>(input, s, field, words). length s)") (auto dest: re_match_length)

definition Split :: "string \<Rightarrow> shell_error + string list" where
  "Split input = Split_loop input input [] []"

text \<open>The class \<^verbatim>\<open>[-A-Za-z0-9_.,:+/@\n]\<close> whose complement \<^verbatim>\<open>Escape\<close> prefixes with a backslash.\<close>

definition safechar :: "char \<Rightarrow> bool" where
  "safechar c \<longleftrightarrow>
     (let n = (of_char c :: nat) in
      c = CHR ''-'' \<or> (0x41 \<le> n \<and> n \<le> 0x5A) \<or> (0x61 \<le> n \<and> n \<le> 0x7A) \<or> (0x30 \<le> n \<and> n \<le> 0x39)
      \<or> c = CHR ''_'' \<or> c = CHR ''.'' \<or> c = CHR '','' \<or> c = CHR '':'' \<or> c = CHR ''+''
      \<or> c = CHR ''/'' \<or> c = CHR ''@'' \<or> c = LF)"

text \<open>\<^verbatim>\<open>re.ReplaceAllString(input, `\$0`)\<close>: a backslash before every rune outside the class.\<close>

function escape_unsafe :: "string \<Rightarrow> string" where
  "escape_unsafe [] = []"
| "escape_unsafe (c # cs) =
     (if safechar c then c # escape_unsafe cs
      else BS # take (rune_size (c # cs)) (c # cs)
             @ escape_unsafe (drop (rune_size (c # cs)) (c # cs)))"
  by pat_completeness auto
termination
  by (relation "measure length") auto

text \<open>\<^verbatim>\<open>strings.ReplaceAll(escaped, "\n", "'\n'")\<close>.\<close>

fun quote_newlines :: "string \<Rightarrow> string" where
  "quote_newlines [] = []"
| "quote_newlines (c # cs) = (if c = LF then [SQ, LF, SQ] @ quote_newlines cs else c # quote_newlines cs)"

definition Escape :: "string \<Rightarrow> string" where
  "Escape input = (if input = [] then [SQ, SQ] else quote_newlines (escape_unsafe input))"

text \<open>\<^verbatim>\<open>strings.Join(elems, " ")\<close>.\<close>

fun strings_Join :: "string list \<Rightarrow> string \<Rightarrow> string" where
  "strings_Join [] sep = []"
| "strings_Join [x] sep = x"
| "strings_Join (x # y # ys) sep = x @ sep @ strings_Join (y # ys) sep"

definition Join :: "string list \<Rightarrow> string" where
  "Join inputs = strings_Join (map Escape inputs) '' ''"

text \<open>
  What the loop does after a token that ends before \<open>r\<close>: group 6 takes part at the end of
  the input and before white space, and closes the field.
\<close>

definition after_token :: "string \<Rightarrow> string \<Rightarrow> string \<Rightarrow> string list \<Rightarrow> shell_error + string list" where
  "after_token input r field words =
     (if r = [] then Inr (words @ [field])
      else if isspace (hd r) then Split_loop input (tl r) [] (words @ [field])
      else Split_loop input r field words)"


text \<open>The escaped text of a non-empty word: the two replacements of \<^verbatim>\<open>Escape\<close> in one.\<close>

definition esc_body :: "string \<Rightarrow> string" where
  "esc_body t = quote_newlines (escape_unsafe t)"


section \<open>Package xiter\<close>

text \<open>
  An \<^verbatim>\<open>iter.Seq\<close> that is consumed once, to its end, is the list of the values it yields.
  \<^verbatim>\<open>Dedupe\<close> keeps the first occurrence of each value; \<open>seen\<close> is the set of keys of
  its map.
\<close>

fun Dedupe_loop :: "'a set \<Rightarrow> 'a list \<Rightarrow> 'a list" where
  "Dedupe_loop seen [] = []"
| "Dedupe_loop seen (v # vs) =
     (if v \<in> seen then Dedupe_loop seen vs else v # Dedupe_loop (insert v seen) vs)"

definition Dedupe :: "'a list \<Rightarrow> 'a list" where
  "Dedupe seq = Dedupe_loop {} seq"

text \<open>
  \<^verbatim>\<open>Zipped{V1, OK1, V2, OK2}\<close>: a value is \<open>Some\<close> exactly when its flag is set (the Go
  struct holds the zero value otherwise).
\<close>

type_synonym ('t, 'u) Zipped = "'t option \<times> 'u option"

fun ZipLongest :: "'t list \<Rightarrow> 'u list \<Rightarrow> ('t, 'u) Zipped list" where
  "ZipLongest [] [] = []"
| "ZipLongest (t # ts) [] = (Some t, None) # ZipLongest ts []"
| "ZipLongest [] (u # us) = (None, Some u) # ZipLongest [] us"
| "ZipLongest (t # ts) (u # us) = (Some t, Some u) # ZipLongest ts us"

section \<open>Package message: the target executor\<close>

record Options =
  AttachmentExtensionToTreatAsInput :: string
  EnvCommand :: "string list"
  NumberOfLinesToEmbedOutput :: int
  NumberOfLinesToEmbedUploadedOutput :: int
  TargetArgsToUseStdin :: "string list"
  TargetCLI :: string
  TargetDefaultArgs :: "string list"

text \<open>\<^verbatim>\<open>discord.File\<close>: a name and the bytes its reader yields.\<close>

record File =
  Name :: string
  Reader :: string

record ExecutionResult =
  Content :: string
  Files :: "File list"

text \<open>Every error value of the program.\<close>

datatype error =
    ErrMkdirTemp string
  | ErrParse string shell_error
  | ErrReadDir string
  | ErrReadFile string string
  | ErrRest string
  | ErrCanceled
  | ErrPanic string

text \<open>
  \<^verbatim>\<open>utf8.RuneCountInString\<close>: the number of runes, an invalid or short encoding counting
  as one rune of width 1.
\<close>

function RuneCountInString :: "string \<Rightarrow> nat" where
  "RuneCountInString [] = 0"
| "RuneCountInString (c # cs) = Suc (RuneCountInString (drop (rune_size (c # cs)) (c # cs)))"
  by pat_completeness auto
termination
  by (relation "measure length") auto

text \<open>
  The loop of \<^verbatim>\<open>bytesToEmbedAndReader\<close> with its four variables; the result says which
  \<^verbatim>\<open>return\<close> ended it: \<open>LineCut embedEnd\<close> (more than \<open>maxLines\<close> lines), \<open>RuneCut i\<close>
  (\<open>maxRunes\<close> runes read) or \<open>NoCut\<close> (the end of \<open>b\<close>).
\<close>

datatype cut = LineCut nat | RuneCut nat | NoCut

function embed_loop :: "string \<Rightarrow> int \<Rightarrow> int \<Rightarrow> int \<Rightarrow> nat \<Rightarrow> int \<Rightarrow> int \<Rightarrow> nat \<Rightarrow> cut" where
  "embed_loop b maxLines maxRunes previewLines i lineNumber runeCount embedEnd =
     (if i < length b then
        (let newline = (fst (DecodeRune (drop i b)) = 10);
             i' = i + rune_size (drop i b);
             lineNumber' = (if newline then lineNumber + 1 else lineNumber);
             embedEnd' = (if newline \<and> lineNumber' = previewLines then i' else embedEnd)
         in if newline \<and> lineNumber' > maxLines then LineCut embedEnd'
            else if runeCount + 1 = maxRunes then RuneCut i'
            else embed_loop b maxLines maxRunes previewLines i' lineNumber' (runeCount + 1) embedEnd')
      else NoCut)"
  by pat_completeness auto

lemma rune_size_drop_pos: "i < length b \<Longrightarrow> 0 < rune_size (drop i b)"
  by (cases "drop i b") simp_all

lemma embed_loop_decreases:
  "i < length b \<Longrightarrow> length b - (i + rune_size (drop i b)) < length b - i"
  using rune_size_drop_pos [of i b] by linarith

termination embed_loop
  by (relation "measure (\<lambda>(b, maxLines, maxRunes, previewLines, i, lineNumber, runeCount, embedEnd). length b - i)")
     (auto simp: embed_loop_decreases)

text \<open>The embedded string and the reader (\<open>None\<close> is the nil reader; a reader yields all of \<open>b\<close>).\<close>

definition bytesToEmbedAndReader :: "string \<Rightarrow> int \<Rightarrow> int \<Rightarrow> int \<Rightarrow> string \<times> string option" where
  "bytesToEmbedAndReader b maxLines maxRunes previewLines =
     (case embed_loop b maxLines maxRunes previewLines 0 0 0 0 of
        LineCut embedEnd \<Rightarrow> (take embedEnd b, Some b)
      | RuneCut i \<Rightarrow> (take i b, Some b)
      | NoCut \<Rightarrow> (b, None))"

text \<open>
  What \<^verbatim>\<open>executeTarget\<close> meets outside the program: whether \<^verbatim>\<open>os.MkdirTemp\<close> fails, what
  \<^verbatim>\<open>cmd.Run\<close> does for an argv and a standard input, and what \<^verbatim>\<open>os.ReadDir\<close> and
  \<^verbatim>\<open>os.ReadFile\<close> find in the working directory afterwards.
\<close>

datatype ctx_err = CtxNone | CtxCanceled | CtxDeadlineExceeded

record run_outcome =
  run_err :: "string option"
  ctx_Err :: ctx_err
  ctx_Cause :: string
  stdout :: string
  stderr :: string

datatype dir_entry = DirEntry string bool "string + string"

record sandbox =
  mkdir_temp :: "string option"
  cmd_Run :: "string list \<Rightarrow> string option \<Rightarrow> run_outcome"
  read_dir :: "string + dir_entry list"

definition contentMax :: int where
  "contentMax = 2000"

text \<open>The loop \<^verbatim>\<open>for i, out := range outputs\<close>; \<open>failed\<close> is \<^verbatim>\<open>err != nil\<close>.\<close>

fun render_outputs ::
  "Options \<Rightarrow> bool \<Rightarrow> nat \<Rightarrow> (string \<times> string) list \<Rightarrow> string \<Rightarrow> File list \<Rightarrow> string \<times> File list" where
  "render_outputs opts failed i [] content files = (content, files)"
| "render_outputs opts failed i ((name, out) # outputs) content files =
     (let header = (if i = 0 \<and> failed then name @ '':'' else []) @ [BT, BT, BT, LF];
          footer = [BT, BT, BT];
          limit = contentMax - int (RuneCountInString content) - int (RuneCountInString header)
                    - int (RuneCountInString footer);
          er = bytesToEmbedAndReader out (NumberOfLinesToEmbedOutput opts) limit
                 (NumberOfLinesToEmbedUploadedOutput opts);
          content' = content @ header @ fst er @ footer;
          files' = (case snd er of
                      Some reader \<Rightarrow> files @ [\<lparr>Name = name @ ''.log'', Reader = reader\<rparr>]
                    | None \<Rightarrow> files)
      in render_outputs opts failed (Suc i) outputs content' files')"

text \<open>The loop over the entries of the working directory.\<close>

fun collect_files :: "dir_entry list \<Rightarrow> File list \<Rightarrow> error + File list" where
  "collect_files [] files = Inr files"
| "collect_files (DirEntry name isDir contents # entries) files =
     (if \<not> isDir then
        (case contents of
           Inl e \<Rightarrow> Inl (ErrReadFile name e)
         | Inr data \<Rightarrow> collect_files entries (files @ [\<lparr>Name = name, Reader = data\<rparr>]))
      else collect_files entries files)"

text \<open>\<^verbatim>\<open>cli\<close> and \<^verbatim>\<open>args\<close> of \<^verbatim>\<open>executeTarget\<close>, for the parsed arguments.\<close>

definition target_cli :: "Options \<Rightarrow> string list \<Rightarrow> string option \<Rightarrow> string list" where
  "target_cli opts args input =
     [TargetCLI opts] @ (if args = [] then TargetDefaultArgs opts else args)
       @ (if input \<noteq> None then TargetArgsToUseStdin opts else [])"

definition errString :: "run_outcome \<Rightarrow> string \<Rightarrow> string" where
  "errString out e =
     (case ctx_Err out of
        CtxCanceled \<Rightarrow> e
      | CtxDeadlineExceeded \<Rightarrow> ctx_Cause out
      | CtxNone \<Rightarrow> e)"

definition executeTarget ::
  "sandbox \<Rightarrow> Options \<Rightarrow> string \<Rightarrow> string option \<Rightarrow> bool \<Rightarrow> error + ExecutionResult" where
  "executeTarget env opts commandline input outputCommandline =
     (case mkdir_temp env of
        Some e \<Rightarrow> Inl (ErrMkdirTemp e)
      | None \<Rightarrow>
          (case Split commandline of
             Inl e \<Rightarrow> Inl (ErrParse commandline e)
           | Inr args \<Rightarrow>
               (let cli = target_cli opts args input;
                    argv = EnvCommand opts @ cli;
                    content0 = (if outputCommandline then [BT] @ Join cli @ [BT, LF] else []);
                    out = cmd_Run env argv input;
                    content1 = (case run_err out of
                                  Some e \<Rightarrow> content0 @ errString out e @ '' with ''
                                | None \<Rightarrow> content0);
                    outputs = (if stdout out \<noteq> [] then [(''stdout'', stdout out)] else [])
                                @ (if stderr out \<noteq> [] then [(''stderr'', stderr out)] else []);
                    rendered = (if outputs = [] then (content1 @ ''no output'', [])
                                else render_outputs opts (run_err out \<noteq> None) 0 outputs content1 [])
                in case read_dir env of
                     Inl e \<Rightarrow> Inl (ErrReadDir e)
                   | Inr entries \<Rightarrow>
                       (case collect_files entries (snd rendered) of
                          Inl e \<Rightarrow> Inl e
                        | Inr files \<Rightarrow> Inr \<lparr>Content = fst rendered, Files = files\<rparr>))))"

fun first_lines :: "nat \<Rightarrow> string \<Rightarrow> string" where
  "first_lines 0 b = []"
| "first_lines (Suc n) [] = []"
| "first_lines (Suc n) (c # cs) = c # (if c = LF then first_lines n cs else first_lines (Suc n) cs)"

definition count_LF :: "string \<Rightarrow> nat" where
  "count_LF s = length (filter (\<lambda>c. c = LF) s)"

function rune_chunks :: "string \<Rightarrow> string list" where
  "rune_chunks [] = []"
| "rune_chunks (c # cs) = take (rune_size (c # cs)) (c # cs) # rune_chunks (drop (rune_size (c # cs)) (c # cs))"
  by pat_completeness auto

termination
  by (relation "measure length") auto

definition defaultOptions :: Options where
  "defaultOptions =
     \<lparr>AttachmentExtensionToTreatAsInput = [],
      EnvCommand = [''/usr/bin/env'', ''-i''],
      NumberOfLinesToEmbedOutput = 20,
      NumberOfLinesToEmbedUploadedOutput = 3,
      TargetArgsToUseStdin = [],
      TargetCLI = ''cat'',
      TargetDefaultArgs = []\<rparr>"

text \<open>
  The words of the specification, ``\<open>s\<close> contains an unmatched single or double quote'', as
  a scanner of its own, written from the quoting rules the specification gives (not from
  the regular expression): outside quotes a backslash takes the next character with it; a
  single quote runs to the next single quote; a double quote runs to the next double quote
  that no backslash precedes. A quote is unmatched when the input ends inside it.
\<close>

datatype quoting = Bare | InSingle | InDouble

fun spec_quoting :: "quoting \<Rightarrow> string \<Rightarrow> quoting" where
  "spec_quoting q [] = q"
| "spec_quoting Bare (c # cs) =
     (if c = BS then (case cs of [] \<Rightarrow> Bare | _ # ds \<Rightarrow> spec_quoting Bare ds)
      else if c = SQ then spec_quoting InSingle cs
      else if c = DQ then spec_quoting InDouble cs
      else spec_quoting Bare cs)"
| "spec_quoting InSingle (c # cs) =
     (if c = SQ then spec_quoting Bare cs else spec_quoting InSingle cs)"
| "spec_quoting InDouble (c # cs) =
     (if c = BS then (case cs of [] \<Rightarrow> InDouble | _ # ds \<Rightarrow> spec_quoting InDouble ds)
      else if c = DQ then spec_quoting Bare cs
      else spec_quoting InDouble cs)"

definition spec_unmatched_quote :: "string \<Rightarrow> bool" where
  "spec_unmatched_quote s \<longleftrightarrow> spec_quoting Bare s \<noteq> Bare"

section \<open>Package message: events, parsing, replies\<close>

datatype MessageType = MessageTypeDefault | MessageTypeReply | MessageTypeOther

datatype ChannelType =
    ChannelTypeGuildText
  | ChannelTypeDM
  | ChannelTypeGuildPublicThread
  | ChannelTypeGuildPrivateThread
  | ChannelTypeOther

record Attachment =
  Filename :: string
  URL :: string

text \<open>
  \<^verbatim>\<open>discord.Message\<close>, as far as the program reads it. Snowflake ids are numbers;
  \<open>HasThread\<close> is \<^verbatim>\<open>Flags.Has(discord.MessageFlagHasThread)\<close>, \<open>Mentions\<close> holds the ids of
  the mentioned users, \<open>ReferencedID\<close> is \<^verbatim>\<open>MessageReference.MessageID\<close>.
\<close>

record Message =
  ID :: nat
  MsgChannelID :: nat
  Type :: MessageType
  AuthorID :: nat
  AuthorBot :: bool
  Mentions :: "nat list"
  Attachments :: "Attachment list"
  MsgContent :: string
  HasThread :: bool
  ReferencedID :: "nat option"

text \<open>
  \<^verbatim>\<open>events.GenericMessage\<close> with what its client answers without a request:
  \<^verbatim>\<open>e.Client().ID()\<close> and the user name of \<^verbatim>\<open>e.Client().Caches().SelfUser()\<close>.
\<close>

record GenericMessage =
  MessageID :: nat
  ChannelID :: nat
  Message :: Message
  ClientID :: nat
  SelfUsername :: string

text \<open>The REST and HTTP requests of \<^verbatim>\<open>ExecuteCmds\<close>, answered by the environment.\<close>

record rest_env =
  GetChannel :: "nat \<Rightarrow> error + ChannelType"
  HTTPGet :: "string \<Rightarrow> error + string"

definition ShouldIgnore :: "GenericMessage \<Rightarrow> bool" where
  "ShouldIgnore e =
     (case Type (Message e) of
        MessageTypeDefault \<Rightarrow> AuthorBot (Message e)
      | MessageTypeReply \<Rightarrow> AuthorBot (Message e)
      | MessageTypeOther \<Rightarrow> True)"

definition mentioning :: "GenericMessage \<Rightarrow> nat \<Rightarrow> bool" where
  "mentioning e userID \<longleftrightarrow> (\<exists>m \<in> set (Mentions (Message e)). m = userID)"

definition HasPrefix :: "string \<Rightarrow> string \<Rightarrow> bool" where
  "HasPrefix s prefix \<longleftrightarrow> length s \<ge> length prefix \<and> take (length prefix) s = prefix"

definition HasSuffix :: "string \<Rightarrow> string \<Rightarrow> bool" where
  "HasSuffix s suffix \<longleftrightarrow> length s \<ge> length suffix \<and> drop (length s - length suffix) s = suffix"

text \<open>\<^verbatim>\<open>snowflake.ID.String()\<close>: the decimal digits.\<close>

definition digit :: "nat \<Rightarrow> char" where
  "digit d = ''0123456789'' ! d"

function snowflake_String :: "nat \<Rightarrow> string" where
  "snowflake_String n = (if n < 10 then [digit n] else snowflake_String (n div 10) @ [digit (n mod 10)])"
  by pat_completeness auto

termination
  by (relation "measure id") auto

definition isdigit :: "char \<Rightarrow> bool" where
  "isdigit c \<longleftrightarrow> 0x30 \<le> (of_char c :: nat) \<and> (of_char c :: nat) \<le> 0x39"

text \<open>
  \<^verbatim>\<open><@!?ID>\<close> at the head of \<open>s\<close>, for the digits \<open>ids\<close>: the input after it.
\<close>

definition mention_at :: "string \<Rightarrow> string \<Rightarrow> string option" where
  "mention_at ids s =
     (if HasPrefix s ''<@'' then
        (let r = drop 2 s;
             r' = (if HasPrefix r ''!'' then drop 1 r else r)
         in if HasPrefix r' (ids @ ''>'') then Some (drop (length ids + 1) r') else None)
      else None)"

text \<open>
  \<^verbatim>\<open>(.*?)(?:```|$)\<close> under \<^verbatim>\<open>(?ms)\<close>: the shortest capture that a fence or the end of a
  line follows, and the input after the match (a fence is consumed, the end of a line has
  no width).
\<close>

fun capture_line :: "string \<Rightarrow> string \<times> string" where
  "capture_line [] = ([], [])"
| "capture_line (c # cs) =
     (if HasPrefix (c # cs) [BT, BT, BT] then ([], drop 3 (c # cs))
      else if c = LF then ([], c # cs)
      else (c # fst (capture_line cs), snd (capture_line cs)))"

lemma HasPrefix_Nil [simp]: "HasPrefix s [] = True"
  by (simp add: HasPrefix_def)

lemma capture_line_length: "length (snd (capture_line s)) \<le> length s"
  by (induction s rule: capture_line.induct) auto

lemma mention_at_length: "mention_at ids s = Some r \<Longrightarrow> length r < length s"
  by (auto simp: mention_at_def HasPrefix_def Let_def split: if_splits)

text \<open>The matches of \<^verbatim>\<open>FindAllStringSubmatch\<close>: group 1 of each, leftmost first.\<close>

function mention_lines :: "string \<Rightarrow> string \<Rightarrow> string list" where
  "mention_lines ids [] = []"
| "mention_lines ids (c # cs) =
     (case mention_at ids (c # cs) of
        Some r \<Rightarrow> fst (capture_line r) # mention_lines ids (snd (capture_line r))
      | None \<Rightarrow> mention_lines ids cs)"
  by pat_completeness auto

termination
proof (relation "measure (\<lambda>(ids, s). length s)")
  show "wf (measure (\<lambda>(ids, s). length s))" by simp
next
  fix ids c cs r
  assume "mention_at ids (c # cs) = Some r"
  from mention_at_length [OF this] capture_line_length [of r]
  show "((ids, snd (capture_line r)), ids, c # cs) \<in> measure (\<lambda>(ids, s). length s)"
    by simp
next
  fix ids c cs
  show "((ids, cs), ids, c # cs) \<in> measure (\<lambda>(ids, s). length s)" by simp
qed

text \<open>\<^verbatim>\<open><@!?\d+>\<close> at the head of \<open>s\<close>: the input after it.\<close>

definition any_mention_at :: "string \<Rightarrow> string option" where
  "any_mention_at s =
     (if HasPrefix s ''<@'' then
        (let r = drop 2 s;
             r' = (if HasPrefix r ''!'' then drop 1 r else r)
         in if takeWhile isdigit r' \<noteq> [] \<and> HasPrefix (dropWhile isdigit r') ''>''
            then Some (drop 1 (dropWhile isdigit r')) else None)
      else None)"

lemma any_mention_at_length: "any_mention_at s = Some r \<Longrightarrow> length r < length s"
proof -
  assume a: "any_mention_at s = Some r"
  have d: "\<And>t. length (dropWhile isdigit t) \<le> length t" by (rule length_dropWhile_le)
  from a obtain t where t: "r = drop 1 (dropWhile isdigit t)" "length t \<le> length s - 2" "2 \<le> length s"
    by (auto simp: any_mention_at_def HasPrefix_def Let_def split: if_splits)
  with d [of t] show ?thesis by simp
qed

text \<open>\<^verbatim>\<open>mentionPattern.ReplaceAllString(match[1], "")\<close>.\<close>

function strip_mentions :: "string \<Rightarrow> string" where
  "strip_mentions [] = []"
| "strip_mentions (c # cs) =
     (case any_mention_at (c # cs) of
        Some r \<Rightarrow> strip_mentions r
      | None \<Rightarrow> c # strip_mentions cs)"
  by pat_completeness auto

termination
  by (relation "measure length") (auto dest: any_mention_at_length)

definition commandlinesFromMentions :: "GenericMessage \<Rightarrow> string list" where
  "commandlinesFromMentions e =
     (if MsgContent (Message e) = [] then []
      else map strip_mentions
             (mention_lines (snowflake_String (ClientID e)) (MsgContent (Message e))))"

text \<open>
  \<^verbatim>\<open>(?ms)```(?:.*?\n)?(.*?)```\<close>. \<open>after_fence\<close> is the input after the leftmost fence, where
  the only match, if any, starts; \<open>before_fence\<close> is \<^verbatim>\<open>(.*?)```\<close>; \<open>after_newline\<close> is the
  shortest \<^verbatim>\<open>.*?\n\<close>. The optional group is tried first; when no fence follows the first
  line feed none follows a later one, and the group is left out.
\<close>

fun after_fence :: "string \<Rightarrow> string option" where
  "after_fence [] = None"
| "after_fence (c # cs) =
     (if HasPrefix (c # cs) [BT, BT, BT] then Some (drop 3 (c # cs)) else after_fence cs)"

fun before_fence :: "string \<Rightarrow> string option" where
  "before_fence [] = None"
| "before_fence (c # cs) =
     (if HasPrefix (c # cs) [BT, BT, BT] then Some []
      else map_option ((#) c) (before_fence cs))"

fun after_newline :: "string \<Rightarrow> string option" where
  "after_newline [] = None"
| "after_newline (c # cs) = (if c = LF then Some cs else after_newline cs)"

definition inputFromCodeblock :: "GenericMessage \<Rightarrow> string option" where
  "inputFromCodeblock e =
     (if MsgContent (Message e) = [] then None
      else case after_fence (MsgContent (Message e)) of
             None \<Rightarrow> None
           | Some rest \<Rightarrow>
               (case Option.bind (after_newline rest) before_fence of
                  Some block \<Rightarrow> Some block
                | None \<Rightarrow> before_fence rest))"

text \<open>
  \<^verbatim>\<open>inputFromAttachment\<close>: the body of the first attachment whose file name has the
  extension; every failure of the download is the error the environment gives.
\<close>

definition inputFromAttachment :: "rest_env \<Rightarrow> GenericMessage \<Rightarrow> string \<Rightarrow> error + string option" where
  "inputFromAttachment env e extension =
     (case filter (\<lambda>a. HasSuffix (Filename a) extension) (Attachments (Message e)) of
        [] \<Rightarrow> Inr None
      | attachment # _ \<Rightarrow>
          (case HTTPGet env (URL attachment) of
             Inl err \<Rightarrow> Inl err
           | Inr body \<Rightarrow> Inr (Some body)))"

text \<open>\<^verbatim>\<open>unicode.IsSpace\<close>, and \<^verbatim>\<open>strings.TrimSpace(cmd) == ""\<close>: every rune is white space.\<close>

definition unicode_IsSpace :: "nat \<Rightarrow> bool" where
  "unicode_IsSpace r \<longleftrightarrow>
     (0x09 \<le> r \<and> r \<le> 0x0D) \<or> r = 0x20 \<or> r = 0x85 \<or> r = 0xA0 \<or> r = 0x1680
     \<or> (0x2000 \<le> r \<and> r \<le> 0x200A) \<or> r = 0x2028 \<or> r = 0x2029 \<or> r = 0x202F
     \<or> r = 0x205F \<or> r = 0x3000"

function TrimSpace_empty :: "string \<Rightarrow> bool" where
  "TrimSpace_empty [] = True"
| "TrimSpace_empty (c # cs) =
     (unicode_IsSpace (fst (DecodeRune (c # cs)))
      \<and> TrimSpace_empty (drop (rune_size (c # cs)) (c # cs)))"
  by pat_completeness auto

termination
  by (relation "measure length") auto

text \<open>
  The futures \<^verbatim>\<open>ExecuteCmds\<close> returns: \<^verbatim>\<open>future.NewError\<close>, the deferred \<^verbatim>\<open>helpResult\<close>,
  and \<^verbatim>\<open>future.New\<close> of \<^verbatim>\<open>executeTarget\<close> with its command line, input and
  \<^verbatim>\<open>outputCmd\<close>.
\<close>

datatype cmd_future = FutError error | FutHelp | FutExec string "string option" bool

definition executeCmdFunc :: "string option \<Rightarrow> bool \<Rightarrow> string \<Rightarrow> cmd_future" where
  "executeCmdFunc input outputCmd cmd =
     (if input \<noteq> None then FutExec cmd input outputCmd
      else if TrimSpace_empty cmd then FutHelp
      else FutExec cmd None outputCmd)"

text \<open>
  \<^verbatim>\<open>ExecuteCmds\<close>. The typing indicator it sends when there are commands has no part in
  what it returns and is left out.
\<close>

definition ExecuteCmds :: "rest_env \<Rightarrow> Options \<Rightarrow> GenericMessage \<Rightarrow> cmd_future list" where
  "ExecuteCmds env opts e =
     (if ShouldIgnore e then []
      else case GetChannel env (ChannelID e) of
        Inl err \<Rightarrow> [FutError err]
      | Inr channelType \<Rightarrow>
          (case (case channelType of
                   ChannelTypeGuildText \<Rightarrow> if \<not> mentioning e (ClientID e) then None else Some []
                 | ChannelTypeGuildPublicThread \<Rightarrow> if \<not> mentioning e (ClientID e) then None else Some []
                 | ChannelTypeGuildPrivateThread \<Rightarrow> if \<not> mentioning e (ClientID e) then None else Some []
                 | ChannelTypeDM \<Rightarrow> Some [[]]
                 | ChannelTypeOther \<Rightarrow> None) of
             None \<Rightarrow> []
           | Some defaultCmds \<Rightarrow>
               (case inputFromAttachment env e (AttachmentExtensionToTreatAsInput opts) of
                  Inl err \<Rightarrow> [FutError err]
                | Inr attached \<Rightarrow>
                    (let input = (case attached of None \<Rightarrow> inputFromCodeblock e | Some b \<Rightarrow> Some b);
                         found = commandlinesFromMentions e;
                         cmds = (if length found = 0 then defaultCmds else found);
                         outputCmd = (length cmds > 1)
                     in map (executeCmdFunc input outputCmd) (Dedupe cmds)))))"

text \<open>\<^verbatim>\<open>helpResult\<close>; U+200B is written in UTF-8.\<close>

definition helpResult :: "GenericMessage \<Rightarrow> error + ExecutionResult" where
  "helpResult e =
     (let tripleBackticks = [BT, BT, BT];
          zeroWithSpace = [CHR 0xE2, CHR 0x80, CHR 0x8B];
          tripleBackticksForCodeblock = [BT] @ zeroWithSpace @ [BT] @ zeroWithSpace @ [BT]
      in Inr \<lparr>Content = tripleBackticks @ [LF] @ ''Usage:'' @ [LF] @ ''@'' @ SelfUsername e @ [LF]
                 @ tripleBackticksForCodeblock @ [LF] @ ''[contents for standard input]'' @ [LF]
                 @ tripleBackticksForCodeblock @ [LF] @ tripleBackticks,
              Files = []\<rparr>)"

text \<open>
  \<^verbatim>\<open>future.Result\<close> for a pointer type: \<open>Value = None\<close> is the nil pointer. \<open>task_result\<close>
  is \<^verbatim>\<open>result.Value, result.Err = task(ctx)\<close> for a task that returns; every task of this
  program returns a nil value with an error.
\<close>

record 'a Result =
  Value :: "'a option"
  Err :: "error option"

definition task_result :: "error + 'a \<Rightarrow> 'a Result" where
  "task_result r = (case r of Inl e \<Rightarrow> \<lparr>Value = None, Err = Some e\<rparr> | Inr v \<Rightarrow> \<lparr>Value = Some v, Err = None\<rparr>)"

text \<open>What a future of \<^verbatim>\<open>ExecuteCmds\<close> computes; each execution has a sandbox of its own.\<close>

definition run_future ::
  "(string \<Rightarrow> sandbox) \<Rightarrow> Options \<Rightarrow> GenericMessage \<Rightarrow> cmd_future \<Rightarrow> error + ExecutionResult" where
  "run_future sandboxes opts e f =
     (case f of
        FutError err \<Rightarrow> Inl err
      | FutHelp \<Rightarrow> helpResult e
      | FutExec cmd input outputCmd \<Rightarrow> executeTarget (sandboxes cmd) opts cmd input outputCmd)"

section \<open>Package client: the reply reconciler\<close>

text \<open>The REST requests that change the remote state.\<close>

datatype rest_call =
    CreateMessage nat string "File list" "nat option"
  | UpdateMessage nat nat string "File list"
  | DeleteMessage nat nat

text \<open>
  \<^verbatim>\<open>SendReply\<close>, \<^verbatim>\<open>UpdateMessage\<close> and \<^verbatim>\<open>DeleteMessage\<close> build a deferred future of one
  request; for a nil result the first two return \<^verbatim>\<open>future.NewValue(nil)\<close>, which requests
  nothing (\<open>None\<close>).
\<close>

definition SendReply :: "GenericMessage \<Rightarrow> ExecutionResult option \<Rightarrow> rest_call option" where
  "SendReply e r =
     (case r of
        None \<Rightarrow> None
      | Some res \<Rightarrow>
          if HasThread (Message e)
          then Some (CreateMessage (MessageID e) (Content res) (Files res) None)
          else Some (CreateMessage (ChannelID e) (Content res) (Files res) (Some (MessageID e))))"

definition UpdateMessage_future :: "GenericMessage \<Rightarrow> Message \<Rightarrow> ExecutionResult option \<Rightarrow> rest_call option" where
  "UpdateMessage_future e m r =
     (case r of
        None \<Rightarrow> None
      | Some res \<Rightarrow> Some (UpdateMessage (MsgChannelID m) (ID m) (Content res) (Files res)))"

definition DeleteMessage_future :: "GenericMessage \<Rightarrow> nat \<Rightarrow> rest_call option" where
  "DeleteMessage_future e mid = Some (DeleteMessage (ChannelID e) mid)"

text \<open>
  \<^verbatim>\<open>.Await(ctx)\<close> on such a future: the request, if any, is made, and the environment
  \<open>rest\<close> says whether it succeeds, given the requests made before. The result is the log
  of requests and whether \<^verbatim>\<open>err == nil\<close>.
\<close>

type_synonym rest = "rest_call list \<Rightarrow> rest_call \<Rightarrow> bool"

definition Await_rest :: "rest \<Rightarrow> rest_call list \<Rightarrow> rest_call option \<Rightarrow> rest_call list \<times> bool" where
  "Await_rest rest log f =
     (case f of None \<Rightarrow> (log, True) | Some c \<Rightarrow> (log @ [c], rest log c))"

text \<open>
  The loop over \<^verbatim>\<open>xiter.ZipLongest(cmdResults, replies)\<close>. Its last branch is an
  \<^verbatim>\<open>else\<close>: it reads \<^verbatim>\<open>z.V2\<close>, which is the zero message (id 0) if \<^verbatim>\<open>OK2\<close> is not set.
\<close>

fun reconcile_zipped ::
  "rest \<Rightarrow> GenericMessage \<Rightarrow> (ExecutionResult Result, Message) Zipped list \<Rightarrow> rest_call list
     \<Rightarrow> rest_call list \<times> bool" where
  "reconcile_zipped rest e [] log = (log, True)"
| "reconcile_zipped rest e (z # zs) log =
     (let f = (case z of
                 (Some r, Some reply) \<Rightarrow> UpdateMessage_future e reply (Value r)
               | (Some r, None) \<Rightarrow> SendReply e (Value r)
               | (None, Some reply) \<Rightarrow> DeleteMessage_future e (ID reply)
               | (None, None) \<Rightarrow> DeleteMessage_future e 0);
          a = Await_rest rest log f
      in if snd a then reconcile_zipped rest e zs (fst a) else a)"

text \<open>The loop over \<^verbatim>\<open>repliesToBeDeleted\<close>.\<close>

fun delete_replies :: "rest \<Rightarrow> GenericMessage \<Rightarrow> Message list \<Rightarrow> rest_call list \<Rightarrow> rest_call list \<times> bool" where
  "delete_replies rest e [] log = (log, True)"
| "delete_replies rest e (reply # replies) log =
     (let a = Await_rest rest log (DeleteMessage_future e (ID reply))
      in if snd a then delete_replies rest e replies (fst a) else a)"

text \<open>
  The body of \<^verbatim>\<open>if deleted { ... }\<close> in \<^verbatim>\<open>processEventsForMessageID\<close>: every \<^verbatim>\<open>return\<close>
  after an error ends both loops.
\<close>

definition reconcile ::
  "rest \<Rightarrow> GenericMessage \<Rightarrow> ExecutionResult Result list \<Rightarrow> Message list \<Rightarrow> Message list
     \<Rightarrow> rest_call list \<times> bool" where
  "reconcile rest e cmdResults replies repliesToBeDeleted =
     (let a = reconcile_zipped rest e (ZipLongest cmdResults replies) []
      in if snd a then delete_replies rest e repliesToBeDeleted (fst a) else a)"

text \<open>
  The requests the specification expects of the reconciler: an edit of a reply to carry a
  result, the creation of a reply to the source message (in its thread, without a
  reference, if it has one), the deletion of a reply.
\<close>

definition edit_call :: "Message \<Rightarrow> ExecutionResult \<Rightarrow> rest_call" where
  "edit_call reply r = UpdateMessage (MsgChannelID reply) (ID reply) (Content r) (Files r)"

definition create_call :: "GenericMessage \<Rightarrow> ExecutionResult \<Rightarrow> rest_call" where
  "create_call e r =
     (if HasThread (Message e) then CreateMessage (MessageID e) (Content r) (Files r) None
      else CreateMessage (ChannelID e) (Content r) (Files r) (Some (MessageID e)))"

definition delete_call :: "GenericMessage \<Rightarrow> Message \<Rightarrow> rest_call" where
  "delete_call e reply = DeleteMessage (ChannelID e) (ID reply)"

text \<open>
  \<^verbatim>\<open>future.Await(ctx, executeCmdFutures)\<close> for a context that is not cancelled: one result
  for each future, in the order of the futures, each what its task returns.
\<close>

definition cmdResults ::
  "(string \<Rightarrow> sandbox) \<Rightarrow> Options \<Rightarrow> GenericMessage \<Rightarrow> cmd_future list \<Rightarrow> ExecutionResult Result list" where
  "cmdResults sandboxes opts e futures = map (\<lambda>f. task_result (run_future sandboxes opts e f)) futures"

text \<open>
  Concrete inputs for the examples below: a message with the given text and type of channel
  aside, sent by a user (id 5) in channel 7, that mentions the bot (id 42); a reply of the
  bot with a given id in that channel; a sandbox whose target prints a given standard output.
\<close>

definition example_message :: "string \<Rightarrow> GenericMessage" where
  "example_message text =
     \<lparr>MessageID = 100, ChannelID = 7,
      Message = \<lparr>ID = 100, MsgChannelID = 7, Type = MessageTypeDefault, AuthorID = 5,
                 AuthorBot = False, Mentions = [42], Attachments = [], MsgContent = text,
                 HasThread = False, ReferencedID = None\<rparr>,
      ClientID = 42, SelfUsername = ''bot''\<rparr>"


definition example_sandbox :: "string \<Rightarrow> sandbox" where
  "example_sandbox out =
     \<lparr>mkdir_temp = None,
      cmd_Run = (\<lambda>argv input.
        \<lparr>run_err = None, ctx_Err = CtxNone, ctx_Cause = [], stdout = out, stderr = []\<rparr>),
      read_dir = Inr []\<rparr>"


definition example_rest_env :: "ChannelType \<Rightarrow> rest_env" where
  "example_rest_env channelType =
     \<lparr>GetChannel = (\<lambda>channel. Inr channelType), HTTPGet = (\<lambda>url. Inl (ErrRest ''no such file''))\<rparr>"

text \<open>
  Message texts: two mention lines with the same arguments and a code block; two different
  mention lines and a code block (scenario S3 of the specification); a mention line with an
  unmatched quote; no mention at all; a code block alone.
\<close>

definition text_same_twice :: string where
  "text_same_twice = ''<@42> -n'' @ [LF] @ ''<@42> -n'' @ [LF, BT, BT, BT, LF] @ ''abc'' @ [BT, BT, BT]"

definition text_two_commands :: string where
  "text_two_commands = ''<@42> -E'' @ [LF] @ ''<@42> -n'' @ [LF, BT, BT, BT, LF] @ ''abc'' @ [BT, BT, BT]"

definition text_unmatched_quote :: string where
  "text_unmatched_quote = ''<@42> -n '' @ [SQ]"


section \<open>Verification: UTF-8 decoding\<close>

lemma byte_at_Cons_Suc [simp]: "byte_at (c # cs) (Suc k) = byte_at cs k"
  by (simp add: byte_at_def)

lemma byte_at_Cons_0 [simp]: "byte_at (c # cs) 0 = of_char c"
  by (simp add: byte_at_def)

lemma byte_at_Cons_numeral [simp]: "byte_at (c # cs) (numeral v) = byte_at cs (numeral v - 1)"
  by (simp add: byte_at_def)

lemma byte_at_take_append: "k < n \<Longrightarrow> n \<le> length cs \<Longrightarrow> byte_at (take n cs @ y) k = byte_at cs k"
  by (simp add: byte_at_def nth_append)

lemma rune_size_multi:
  assumes "1 < rune_size (c # cs)"
  shows "\<exists>sz lo hi. first (of_char c) = Lead sz lo hi \<and> rune_size (c # cs) = sz
           \<and> sz \<le> Suc (length cs) \<and> (sz = 2 \<or> sz = 3 \<or> sz = 4)"
proof (cases "first (of_char c)")
  case Ascii
  with assms show ?thesis by (simp add: rune_size_Ascii)
next
  case Invalid
  with assms show ?thesis by (simp add: rune_size_Invalid)
next
  case (Lead sz lo hi)
  from first_Lead_cases [OF Lead] have sz: "sz = 2 \<or> sz = 3 \<or> sz = 4" by simp
  from assms sz have "rune_size (c # cs) = sz \<and> sz \<le> Suc (length cs)"
    by (auto simp: rune_size_Lead [OF Lead] split: if_splits)
  with Lead sz show ?thesis by blast
qed

text \<open>A multi-byte rune is decoded from its own bytes alone.\<close>

lemma rune_size_local_multi:
  assumes "1 < rune_size (c # cs)"
  shows "rune_size (take (rune_size (c # cs)) (c # cs) @ y) = rune_size (c # cs)"
proof -
  from rune_size_multi [OF assms] obtain sz lo hi where L: "first (of_char c) = Lead sz lo hi"
    and n: "rune_size (c # cs) = sz" and len: "sz \<le> Suc (length cs)"
    and sz: "sz = 2 \<or> sz = 3 \<or> sz = 4"
    by blast
  from sz consider "sz = 2" | "sz = 3" | "sz = 4" by blast
  then have "rune_size (c # (take (sz - 1) cs @ y)) = sz"
  proof cases
    case 1
    with n len show ?thesis
      by (simp add: rune_size_Lead [OF L] byte_at_take_append split: if_splits)
  next
    case 2
    with n len show ?thesis
      by (simp add: rune_size_Lead [OF L] byte_at_take_append split: if_splits)
  next
    case 3
    with n len show ?thesis
      by (simp add: rune_size_Lead [OF L] byte_at_take_append split: if_splits)
  qed
  moreover have "take sz (c # cs) @ y = c # (take (sz - 1) cs @ y)"
    using sz by (auto simp: take_Cons')
  ultimately show ?thesis using n by simp
qed

text \<open>A byte that decodes alone still does when an ASCII byte, or nothing, follows it.\<close>

lemma rune_size_local_single:
  assumes "rune_size (c # cs) = 1" and "y = [] \<or> (of_char (hd y) :: nat) < 0x80"
  shows "rune_size (c # y) = 1"
proof (cases "first (of_char c)")
  case Ascii
  then show ?thesis by (simp add: rune_size_Ascii)
next
  case Invalid
  then show ?thesis by (simp add: rune_size_Invalid)
next
  case (Lead sz lo hi)
  from first_Lead_cases [OF Lead] have sz: "sz = 2 \<or> sz = 3 \<or> sz = 4" and lo: "0x80 \<le> lo"
    by simp_all
  show ?thesis
  proof (cases y)
    case Nil
    with sz show ?thesis by (auto simp: rune_size_Lead [OF Lead])
  next
    case (Cons d ds)
    with assms(2) lo have "outside lo hi (byte_at (c # y) 1)"
      by (simp add: outside_def byte_at_def)
    then show ?thesis by (simp add: rune_size_Lead [OF Lead])
  qed
qed

text \<open>The bytes of a rune after its first are continuation bytes.\<close>

lemma rune_tail_high:
  assumes "x \<in> set (tl (take (rune_size (c # cs)) (c # cs)))"
  shows "0x80 \<le> (of_char x :: nat)"
proof (cases "1 < rune_size (c # cs)")
  case False
  then have "rune_size (c # cs) = 1" using rune_size_pos [of c cs] by linarith
  with assms show ?thesis by simp
next
  case True
  from rune_size_multi [OF True] obtain sz lo hi where L: "first (of_char c) = Lead sz lo hi"
    and n: "rune_size (c # cs) = sz" and len: "sz \<le> Suc (length cs)"
    and sz: "sz = 2 \<or> sz = 3 \<or> sz = 4"
    by blast
  from first_Lead_cases [OF L] have lo: "0x80 \<le> lo" by simp
  from assms n sz have x: "x \<in> set (take (sz - 1) cs)" by (auto simp: take_Cons')
  then obtain k where k: "k < sz - 1" "k < length cs" "x = cs ! k"
    by (auto simp: in_set_conv_nth)
  from sz consider "sz = 2" | "sz = 3" | "sz = 4" by blast
  then show ?thesis
  proof cases
    case 1
    with k have "k = 0" by simp
    with n 1 k lo show ?thesis
      by (auto simp: rune_size_Lead [OF L] outside_def byte_at_def split: if_splits)
  next
    case 2
    with k have "k = 0 \<or> k = 1" by auto
    with n 2 k lo show ?thesis
      by (auto simp: rune_size_Lead [OF L] outside_def byte_at_def split: if_splits)
  next
    case 3
    with k have "k = 0 \<or> k = 1 \<or> k = 2" by auto
    with n 3 k lo show ?thesis
      by (auto simp: rune_size_Lead [OF L] outside_def byte_at_def split: if_splits)
  qed
qed

lemma first_Lead_range:
  "first n = Lead sz lo hi \<Longrightarrow> hi \<le> 191 \<and> (
     (sz = 2 \<and> 194 \<le> n \<and> n < 224) \<or>
     (sz = 3 \<and> 224 \<le> n \<and> n < 240 \<and> (n = 224 \<longrightarrow> lo = 160)) \<or>
     (sz = 4 \<and> 240 \<le> n \<and> n < 245 \<and> (n = 240 \<longrightarrow> lo = 144)))"
  by (simp add: first_def split: if_splits)

lemma DecodeRune_Lead_not_newline:
  assumes L: "first (of_char c) = Lead sz lo hi"
  shows "fst (DecodeRune (c # cs)) \<noteq> 10"
proof -
  define n :: nat where "n = of_char c"
  define b1 where "b1 = byte_at cs 0"
  define b2 where "b2 = byte_at cs 1"
  define b3 where "b3 = byte_at cs 2"
  have D: "fst (DecodeRune (c # cs)) = RuneError
    \<or> (sz = 2 \<and> \<not> outside lo hi b1 \<and> fst (DecodeRune (c # cs)) = (n mod 32) * 64 + b1 mod 64)
    \<or> (sz = 3 \<and> \<not> outside lo hi b1 \<and> fst (DecodeRune (c # cs)) = (n mod 16) * 4096 + (b1 mod 64) * 64 + b2 mod 64)
    \<or> (sz = 4 \<and> \<not> outside lo hi b1 \<and> fst (DecodeRune (c # cs)) = (n mod 8) * 262144 + (b1 mod 64) * 4096 + (b2 mod 64) * 64 + b3 mod 64)"
    using first_Lead_cases [OF L] L
    by (auto simp: DecodeRune_def n_def b1_def b2_def b3_def)
  from first_Lead_range [OF L] have R:
     "hi \<le> 191 \<and> ((sz = 2 \<and> 194 \<le> n \<and> n < 224) \<or>
     (sz = 3 \<and> 224 \<le> n \<and> n < 240 \<and> (n = 224 \<longrightarrow> lo = 160)) \<or>
     (sz = 4 \<and> 240 \<le> n \<and> n < 245 \<and> (n = 240 \<longrightarrow> lo = 144)))"
    by (simp add: n_def)
  have m2: "194 \<le> n \<Longrightarrow> n < 224 \<Longrightarrow> n mod 32 \<noteq> 0" by presburger
  have m3: "224 \<le> n \<Longrightarrow> n < 240 \<Longrightarrow> n \<noteq> 224 \<Longrightarrow> n mod 16 \<noteq> 0" by presburger
  have m4: "240 \<le> n \<Longrightarrow> n < 245 \<Longrightarrow> n \<noteq> 240 \<Longrightarrow> n mod 8 \<noteq> 0" by presburger
  have b160: "160 \<le> b1 \<Longrightarrow> b1 \<le> 191 \<Longrightarrow> b1 mod 64 \<noteq> 0" by presburger
  have b144: "144 \<le> b1 \<Longrightarrow> b1 \<le> 191 \<Longrightarrow> b1 mod 64 \<noteq> 0" by presburger
  from D R show ?thesis
    using m2 m3 m4 b160 b144
    by (auto simp: RuneError_def outside_def)
qed

lemma DecodeRune_newline: "fst (DecodeRune p) = 10 \<longleftrightarrow> (p \<noteq> [] \<and> hd p = LF)"
proof (cases p)
  case Nil
  then show ?thesis by (simp add: DecodeRune_def RuneError_def)
next
  case (Cons c cs)
  show ?thesis
  proof (cases "first (of_char c)")
    case Ascii
    have "(of_char c :: nat) = 10 \<longleftrightarrow> c = LF"
      using of_char_eq_iff [of c LF, where ?'a = nat] by simp
    with Ascii Cons show ?thesis by (simp add: DecodeRune_def)
  next
    case Invalid
    then have "c \<noteq> LF" by (auto simp: first_def)
    with Invalid Cons show ?thesis by (simp add: DecodeRune_def RuneError_def)
  next
    case (Lead sz lo hi)
    then have "c \<noteq> LF" by (auto simp: first_def)
    with DecodeRune_Lead_not_newline [OF Lead] Cons show ?thesis by simp
  qed
qed

section \<open>Verification: shellwords\<close>

declare Split_loop.simps [simp del]


lemma Split_loop_Nil [simp]: "Split_loop input [] field words = Inr words"
  by (simp add: Split_loop.simps re_match_def)

lemma Split_loop_match:
  assumes "re_match s = Some (cap, sep_after r)" and "\<forall>g. cap \<noteq> Garbage g"
  shows "Split_loop input s field words = after_token input r (field @ token_of cap) words"
proof (cases r)
  case Nil
  with assms show ?thesis
    by (cases cap) (simp_all add: Split_loop.simps [of input s] sep_after_def after_token_def)
next
  case (Cons d ds)
  with assms show ?thesis
    by (cases cap) (simp_all add: Split_loop.simps [of input s] sep_after_def after_token_def)
qed

lemma rune_size_take: "rune_size (take (rune_size s) s) = rune_size s"
proof (cases s)
  case Nil
  then show ?thesis by simp
next
  case (Cons c cs)
  show ?thesis
  proof (cases "1 < rune_size (c # cs)")
    case True
    from rune_size_local_multi [OF True, of "[]"] Cons show ?thesis by simp
  next
    case False
    then have one: "rune_size (c # cs) = 1" using rune_size_pos [of c cs] by linarith
    have "rune_size [c] = 1" using rune_size_bounds [of "[c]"] by simp
    with one Cons show ?thesis by simp
  qed
qed

lemma unescape_esc_pair:
  assumes "s \<noteq> []" "hd s \<noteq> LF"
  shows "unescape_esc (BS # take (rune_size s) s) = take (rune_size s) s"
proof -
  obtain c cs where s: "s = c # cs" using assms by (cases s) auto
  obtain k where k: "rune_size s = Suc k"
    using s gr0_implies_Suc [OF rune_size_pos [of c cs]] by auto
  have hd: "hd (take (rune_size s) s) = hd s"
    using s k by simp
  have "drop (rune_size (take (rune_size s) s)) (take (rune_size s) s) = []"
    by (simp add: rune_size_take)
  moreover have ne: "take (rune_size s) s \<noteq> []" using s k by simp
  ultimately show ?thesis using hd assms by (simp add: rune_size_take)
qed

lemma re_match_word:
  assumes "wordchar c"
  shows "re_match (c # s) = Some (Word (c # takeWhile wordchar s), sep_after (dropWhile wordchar s))"
proof -
  from assms have "\<not> isspace c" by (simp add: wordchar_def)
  with assms show ?thesis by (simp add: re_match_def)
qed

lemma after_token_word:
  assumes "wordchar d"
  shows "after_token input (d # ds) field words = Split_loop input (d # ds) field words"
  using assms by (simp add: after_token_def wordchar_def)

lemma Split_loop_word:
  assumes "wordchar c"
  shows "Split_loop input (c # s) field words = after_token input s (field @ [c]) words"
proof (cases "s \<noteq> [] \<and> wordchar (hd s)")
  case True
  then obtain d ds where s: "s = d # ds" and d: "wordchar d" by (cases s) auto
  have "Split_loop input (c # s) field words
      = after_token input (dropWhile wordchar s) (field @ c # takeWhile wordchar s) words"
    using Split_loop_match [OF re_match_word [OF assms]] by (simp add: token_of_def)
  also have "\<dots> = after_token input (dropWhile wordchar ds) ((field @ [c]) @ d # takeWhile wordchar ds) words"
    using s d by simp
  also have "\<dots> = Split_loop input (d # ds) (field @ [c]) words"
    using Split_loop_match [OF re_match_word [OF d], of ds input "field @ [c]" words]
    by (simp add: token_of_def)
  finally show ?thesis using s d by (simp add: after_token_word)
next
  case False
  then have "takeWhile wordchar s = []" "dropWhile wordchar s = s" by (cases s; simp)+
  with Split_loop_match [OF re_match_word [OF assms], of s input field words]
  show ?thesis by (simp add: token_of_def)
qed

lemma Split_loop_esc:
  assumes "s \<noteq> []" "hd s \<noteq> LF"
  shows "Split_loop input (BS # s) field words
         = after_token input (drop (rune_size s) s) (field @ take (rune_size s) s) words"
proof -
  from assms have d: "dot_opt s = rune_size s" by (cases s) (simp_all add: dot_opt_def)
  have "re_match (BS # s) = Some (Esc (BS # take (rune_size s) s), sep_after (drop (rune_size s) s))"
    by (simp add: re_match_def isspace_def wordchar_def d)
  from Split_loop_match [OF this] unescape_esc_pair [OF assms]
  show ?thesis by (simp add: token_of_def)
qed

lemma Split_loop_sq:
  assumes "SQ \<notin> set b"
  shows "Split_loop input (SQ # b @ SQ # r) field words = after_token input r (field @ b) words"
proof -
  have tw: "takeWhile (\<lambda>x. x \<noteq> SQ) (b @ SQ # r) = b"
    using assms by (induction b) auto
  have dw: "dropWhile (\<lambda>x. x \<noteq> SQ) (b @ SQ # r) = SQ # r"
    using assms by (induction b) auto
  have "re_match (SQ # b @ SQ # r) = Some (Sq b, sep_after r)"
    by (simp add: re_match_def isspace_def wordchar_def tw dw)
  from Split_loop_match [OF this] show ?thesis by (simp add: token_of_def)
qed

lemma safechar_ascii: "safechar c \<Longrightarrow> (of_char c :: nat) < 0x80"
  by (auto simp: safechar_def Let_def)

lemma safechar_wordchar: "safechar c \<Longrightarrow> c \<noteq> LF \<Longrightarrow> wordchar c"
  by (auto simp: safechar_def wordchar_def isspace_def Let_def)

lemma unsafe_not_LF: "\<not> safechar c \<Longrightarrow> c \<noteq> LF"
  by (auto simp: safechar_def)

lemma quote_newlines_append: "quote_newlines (xs @ ys) = quote_newlines xs @ quote_newlines ys"
  by (induction xs) auto

lemma quote_newlines_id: "LF \<notin> set xs \<Longrightarrow> quote_newlines xs = xs"
  by (induction xs) auto

lemma rune_bytes_no_LF:
  assumes "c \<noteq> LF"
  shows "LF \<notin> set (take (rune_size (c # cs)) (c # cs))"
proof
  assume a: "LF \<in> set (take (rune_size (c # cs)) (c # cs))"
  obtain k where k: "rune_size (c # cs) = Suc k"
    using gr0_implies_Suc [OF rune_size_pos [of c cs]] by auto
  with a assms have "LF \<in> set (tl (take (rune_size (c # cs)) (c # cs)))" by simp
  from rune_tail_high [OF this] show False by simp
qed

lemma esc_body_Nil [simp]: "esc_body [] = []"
  by (simp add: esc_body_def)

lemma esc_body_Cons:
  "esc_body (c # cs) =
     (if c = LF then [SQ, LF, SQ] @ esc_body cs
      else if safechar c then c # esc_body cs
      else BS # take (rune_size (c # cs)) (c # cs) @ esc_body (drop (rune_size (c # cs)) (c # cs)))"
proof -
  have "LF = c \<Longrightarrow> safechar c" by (auto simp: safechar_def)
  then show ?thesis
    using quote_newlines_id [OF rune_bytes_no_LF, of c cs]
    by (auto simp: esc_body_def quote_newlines_append)
qed

lemma esc_body_head:
  assumes "t \<noteq> []"
  shows "esc_body t \<noteq> [] \<and> \<not> isspace (hd (esc_body t)) \<and> (of_char (hd (esc_body t)) :: nat) < 0x80"
proof -
  obtain c cs where t: "t = c # cs" using assms by (cases t) auto
  show ?thesis
    using safechar_wordchar [of c] safechar_ascii [of c]
    by (auto simp: t esc_body_Cons isspace_def wordchar_def)
qed

lemma after_token_esc_body:
  assumes "t \<noteq> []"
  shows "after_token input (esc_body t @ r) field words = Split_loop input (esc_body t @ r) field words"
  using esc_body_head [OF assms] by (cases "esc_body t") (auto simp: after_token_def)

lemma after_token_end:
  assumes "r = [] \<or> isspace (hd r)"
  shows "after_token input r field words = Split_loop input (tl r) [] (words @ [field])"
  using assms by (auto simp: after_token_def)

text \<open>The rune after an inserted backslash is decoded in the escaped text as it was in the input.\<close>

lemma rune_size_escaped:
  assumes "y = [] \<or> (of_char (hd y) :: nat) < 0x80"
  shows "rune_size (take (rune_size (c # cs)) (c # cs) @ y) = rune_size (c # cs)"
proof (cases "1 < rune_size (c # cs)")
  case True
  then show ?thesis by (rule rune_size_local_multi)
next
  case False
  then have one: "rune_size (c # cs) = 1" using rune_size_pos [of c cs] by linarith
  from rune_size_local_single [OF one assms] one show ?thesis by simp
qed

lemma Split_loop_esc_body:
  assumes r: "r = [] \<or> isspace (hd r)"
  shows "t \<noteq> [] \<Longrightarrow>
     Split_loop input (esc_body t @ r) field words = Split_loop input (tl r) [] (words @ [field @ t])"
proof (induction t arbitrary: field rule: escape_unsafe.induct)
  case 1
  then show ?case by simp
next
  case (2 c cs)
  have rA: "r = [] \<or> (of_char (hd r) :: nat) < 0x80"
    using r by (auto simp: isspace_def)
  have tail: "\<And>t' f'. (t' \<noteq> [] \<Longrightarrow> (\<And>f. Split_loop input (esc_body t' @ r) f words
                  = Split_loop input (tl r) [] (words @ [f @ t']))) \<Longrightarrow>
     after_token input (esc_body t' @ r) f' words = Split_loop input (tl r) [] (words @ [f' @ t'])"
  proof -
    fix t' f'
    assume IH: "t' \<noteq> [] \<Longrightarrow> (\<And>f. Split_loop input (esc_body t' @ r) f words
                  = Split_loop input (tl r) [] (words @ [f @ t']))"
    show "after_token input (esc_body t' @ r) f' words = Split_loop input (tl r) [] (words @ [f' @ t'])"
    proof (cases "t' = []")
      case True
      then show ?thesis using after_token_end [OF r] by simp
    next
      case False
      with IH after_token_esc_body [OF False] show ?thesis by simp
    qed
  qed
  show ?case
  proof (cases "c = LF")
    case True
    then have sf: "safechar c" by (simp add: safechar_def)
    have "Split_loop input (esc_body (c # cs) @ r) field words
        = after_token input (esc_body cs @ r) (field @ [LF]) words"
      using Split_loop_sq [of "[LF]" input "esc_body cs @ r" field words] True
      by (simp add: esc_body_Cons)
    also have "\<dots> = Split_loop input (tl r) [] (words @ [(field @ [LF]) @ cs])"
      by (rule tail) (rule "2.IH"(1) [OF sf])
    finally show ?thesis using True by simp
  next
    case notLF: False
    show ?thesis
    proof (cases "safechar c")
      case True
      have "Split_loop input (esc_body (c # cs) @ r) field words
          = after_token input (esc_body cs @ r) (field @ [c]) words"
        using Split_loop_word [OF safechar_wordchar [OF True notLF]] True notLF
        by (simp add: esc_body_Cons)
      also have "\<dots> = Split_loop input (tl r) [] (words @ [(field @ [c]) @ cs])"
        by (rule tail) (rule "2.IH"(1) [OF True])
      finally show ?thesis by simp
    next
      case False
      define n where "n = rune_size (c # cs)"
      define y where "y = esc_body (drop n (c # cs)) @ r"
      have yA: "y = [] \<or> (of_char (hd y) :: nat) < 0x80"
      proof (cases "drop n (c # cs) = []")
        case True
        then show ?thesis using rA by (simp add: y_def)
      next
        case False
        from esc_body_head [OF this] show ?thesis by (cases "esc_body (drop n (c # cs))") (auto simp: y_def)
      qed
      have sz: "rune_size (take n (c # cs) @ y) = n"
        unfolding n_def by (rule rune_size_escaped [OF yA])
      obtain k where k: "n = Suc k"
        using gr0_implies_Suc [OF rune_size_pos [of c cs]] by (auto simp: n_def)
      have ne: "take n (c # cs) @ y \<noteq> []" "hd (take n (c # cs) @ y) \<noteq> LF"
        using k notLF by simp_all
      have len: "n \<le> length (c # cs)" unfolding n_def by (rule rune_size_le_length)
      have "Split_loop input (esc_body (c # cs) @ r) field words
          = Split_loop input (BS # take n (c # cs) @ y) field words"
        using False notLF by (simp add: esc_body_Cons n_def y_def)
      also have "\<dots> = after_token input (drop n (take n (c # cs) @ y)) (field @ take n (take n (c # cs) @ y)) words"
        using Split_loop_esc [OF ne, of input field words] by (simp only: sz)
      also have "\<dots> = after_token input y (field @ take n (c # cs)) words"
        using len by simp
      also have "\<dots> = Split_loop input (tl r) [] (words @ [(field @ take n (c # cs)) @ drop n (c # cs)])"
        unfolding y_def by (rule tail) (rule "2.IH"(2) [OF False, folded n_def])
      finally show ?thesis by simp
    qed
  qed
qed

lemma Split_loop_Escape:
  assumes r: "r = [] \<or> isspace (hd r)"
  shows "Split_loop input (Escape t @ r) [] words = Split_loop input (tl r) [] (words @ [t])"
proof (cases "t = []")
  case True
  have "Split_loop input (SQ # [] @ SQ # r) [] words = after_token input r ([] @ []) words"
    by (rule Split_loop_sq) simp
  with True after_token_end [OF r] show ?thesis by (simp add: Escape_def)
next
  case False
  with Split_loop_esc_body [OF r False, of input "[]" words] show ?thesis
    by (simp add: Escape_def esc_body_def)
qed

lemma Split_loop_Join:
  "Split_loop input (strings_Join (map Escape xs) '' '') [] words = Inr (words @ xs)"
proof (induction xs arbitrary: words)
  case Nil
  then show ?case by simp
next
  case (Cons x xs)
  show ?case
  proof (cases xs)
    case Nil
    with Split_loop_Escape [of "[]" input x words] show ?thesis by simp
  next
    case (Cons y ys)
    have "Split_loop input (Escape x @ '' '' @ strings_Join (map Escape (y # ys)) '' '') [] words
        = Split_loop input (strings_Join (map Escape (y # ys)) '' '') [] (words @ [x])"
      using Split_loop_Escape [of "'' '' @ strings_Join (map Escape (y # ys)) '' ''" input x words]
      by (simp add: isspace_def)
    with Cons Cons.IH [of "words @ [x]"] show ?thesis by simp
  qed
qed

text \<open>
  Claim C5: for every finite list of strings \<open>xs\<close>, empty and white-space-only strings
  included (and any bytes at all, valid UTF-8 or not), \<^verbatim>\<open>Split(Join(xs))\<close> succeeds and
  returns exactly \<open>xs\<close>.
\<close>

theorem Split_Join: "Split (Join xs) = Inr xs"
  using Split_loop_Join [of "Join xs" xs "[]"] by (simp add: Split_def Join_def)

declare embed_loop.simps [simp del]

lemma count_LF_simps [simp]:
  "count_LF [] = 0"
  "count_LF (c # cs) = (if c = LF then Suc (count_LF cs) else count_LF cs)"
  "count_LF (xs @ ys) = count_LF xs + count_LF ys"
  by (simp_all add: count_LF_def)

lemma first_lines_prefix: "first_lines n b = take (length (first_lines n b)) b"
  by (induction n b rule: first_lines.induct) auto

lemma first_lines_count: "n \<le> count_LF (take j b) \<Longrightarrow> count_LF (first_lines n b) = n"
proof (induction n b arbitrary: j rule: first_lines.induct)
  case (1 b)
  then show ?case by simp
next
  case (2 n)
  then show ?case by simp
next
  case (3 n c cs)
  then show ?case by (cases j) (auto split: if_splits)
qed

lemma first_lines_length:
  "0 < j \<Longrightarrow> j \<le> length b \<Longrightarrow> b ! (j - 1) = LF \<Longrightarrow> count_LF (take j b) = n \<Longrightarrow> length (first_lines n b) = j"
proof (induction n b arbitrary: j rule: first_lines.induct)
  case (1 b)
  then have "LF \<in> set (take j b)"
    by (metis (no_types, lifting) One_nat_def Suc_pred diff_less in_set_conv_nth length_take lessI min.absorb2 nth_take)
  with 1 show ?case by (auto simp: count_LF_def filter_empty_conv)
next
  case (2 n)
  then show ?case by simp
next
  case (3 n c cs)
  show ?case
  proof (cases j)
    case 0
    with 3 show ?thesis by simp
  next
    case (Suc k)
    show ?thesis
    proof (cases k)
      case 0
      with Suc 3 show ?thesis by (auto split: if_splits)
    next
      case (Suc k')
      with \<open>j = Suc k\<close> 3 show ?thesis by (auto split: if_splits)
    qed
  qed
qed

lemma first_lines_last:
  "count_LF (first_lines n b) = n \<Longrightarrow> first_lines n b = [] \<or> last (first_lines n b) = LF"
  by (induction n b rule: first_lines.induct) (auto split: if_splits)

lemma rune_at_newline:
  assumes "i < length b" "fst (DecodeRune (drop i b)) = 10"
  shows "rune_size (drop i b) = 1 \<and> b ! i = LF"
proof -
  from assms(1) obtain c cs where d: "drop i b = c # cs" by (cases "drop i b") auto
  with assms(2) have c: "c = LF" by (simp add: DecodeRune_newline)
  then have "first (of_char c) = Ascii" by (simp add: first_def)
  then have "rune_size (c # cs) = 1" by (rule rune_size_Ascii)
  moreover have "b ! i = c" using d assms(1) by (metis nth_via_drop)
  ultimately show ?thesis using d c by simp
qed

lemma rune_not_newline:
  assumes "i < length b" "fst (DecodeRune (drop i b)) \<noteq> 10"
  shows "count_LF (take (rune_size (drop i b)) (drop i b)) = 0"
proof -
  from assms(1) obtain c cs where d: "drop i b = c # cs" by (cases "drop i b") auto
  with assms(2) have c: "c \<noteq> LF" by (simp add: DecodeRune_newline)
  from rune_bytes_no_LF [OF c, of cs] d show ?thesis
    by (auto simp: count_LF_def filter_empty_conv)
qed

lemma rune_step_le: "i < length b \<Longrightarrow> i + rune_size (drop i b) \<le> length b"
  using rune_size_le_length [of "drop i b"] by simp

lemma embed_loop_LineCut:
  assumes "embed_loop b maxLines maxRunes N i ln rc ee = LineCut e"
    and "i \<le> length b"
    and "ln = int (count_LF (take i b))"
    and "ee = (if 1 \<le> N \<and> N \<le> ln then length (first_lines (nat N) b) else 0)"
    and "ln \<le> maxLines \<or> ln = 0"
    and "0 \<le> N" "N \<le> max (maxLines + 1) 1"
  shows "e = length (first_lines (nat N) b) \<and> count_LF (first_lines (nat N) b) = nat N"
  using assms
proof (induction b maxLines maxRunes N i ln rc ee rule: embed_loop.induct)
  case (1 b maxLines maxRunes N i ln rc ee)
  from "1.prems"(1) have lt: "i < length b"
    by (subst (asm) embed_loop.simps) (auto split: if_splits)
  define nl where "nl = (fst (DecodeRune (drop i b)) = 10)"
  define i' where "i' = i + rune_size (drop i b)"
  define ln' where "ln' = (if nl then ln + 1 else ln)"
  define ee' where "ee' = (if nl \<and> ln' = N then i' else ee)"
  have i'le: "i' \<le> length b" unfolding i'_def by (rule rune_step_le [OF lt])
  have tk: "take i' b = take i b @ take (rune_size (drop i b)) (drop i b)"
    unfolding i'_def by (simp add: take_add)
  have cnt: "ln' = int (count_LF (take i' b))"
  proof (cases nl)
    case True
    from rune_at_newline [OF lt] True have "rune_size (drop i b) = 1" "b ! i = LF"
      by (simp_all add: nl_def)
    then have "take (rune_size (drop i b)) (drop i b) = [LF]"
      using lt by (simp add: take_Suc hd_drop_conv_nth)
    with True tk "1.prems"(3) show ?thesis by (simp add: ln'_def)
  next
    case False
    from rune_not_newline [OF lt] False tk "1.prems"(3) show ?thesis
      by (simp add: ln'_def nl_def)
  qed
  have N0: "0 \<le> N" by fact
  have ee'_inv: "ee' = (if 1 \<le> N \<and> N \<le> ln' then length (first_lines (nat N) b) else 0)"
  proof (cases "nl \<and> ln' = N")
    case True
    then have nl by simp
    from rune_at_newline [OF lt] \<open>nl\<close> have one: "rune_size (drop i b) = 1" and LFi: "b ! i = LF"
      by (simp_all add: nl_def)
    have ln'pos: "1 \<le> ln'" using \<open>nl\<close> "1.prems"(3) by (simp add: ln'_def)
    have "length (first_lines (nat N) b) = i'"
    proof (rule first_lines_length)
      show "0 < i'" using one by (simp add: i'_def)
      show "i' \<le> length b" by fact
      show "b ! (i' - 1) = LF" using one LFi by (simp add: i'_def)
      show "count_LF (take i' b) = nat N" using cnt True by simp
    qed
    with True ln'pos show ?thesis by (simp add: ee'_def)
  next
    case nohit: False
    then have keep: "ee' = ee" by (auto simp: ee'_def)
    show ?thesis
    proof (cases nl)
      case True
      with nohit have ne: "ln' \<noteq> N" by simp
      from True have "ln' = ln + 1" by (simp add: ln'_def)
      with ne have "(N \<le> ln') = (N \<le> ln)" by linarith
      with keep "1.prems"(4) show ?thesis by simp
    next
      case False
      then have "ln' = ln" by (simp add: ln'_def)
      with keep "1.prems"(4) show ?thesis by simp
    qed
  qed
  show ?case
  proof (cases "nl \<and> ln' > maxLines")
    case True
    then have nl by simp
    with "1.prems"(1) lt True have e: "e = ee'"
      by (subst (asm) embed_loop.simps) (auto simp: Let_def nl_def [symmetric] ln'_def ee'_def i'_def)
    have ln'eq: "ln' = ln + 1" using \<open>nl\<close> by (simp add: ln'_def)
    have lnge: "0 \<le> ln" using "1.prems"(3) by simp
    have "N \<le> ln'"
      using "1.prems"(5) "1.prems"(7) True ln'eq lnge by linarith
    then have le: "nat N \<le> count_LF (take i' b)" using cnt by linarith
    have c2: "count_LF (first_lines (nat N) b) = nat N"
      by (rule first_lines_count [OF le])
    show ?thesis
    proof (cases "1 \<le> N")
      case True
      with \<open>N \<le> ln'\<close> ee'_inv e c2 show ?thesis by simp
    next
      case False
      with N0 have "N = 0" by simp
      with ee'_inv e show ?thesis by simp
    qed
  next
    case False
    from False have cont: "ln' \<le> maxLines \<or> ln' = 0"
      using "1.prems"(5) by (auto simp: ln'_def)
    from "1.prems"(1) lt False have notcut: "rc + 1 \<noteq> maxRunes"
      by (subst (asm) embed_loop.simps) (auto simp: Let_def nl_def [symmetric] ln'_def split: if_splits)
    from "1.prems"(1) lt False notcut
    have rec: "embed_loop b maxLines maxRunes N i' ln' (rc + 1) ee' = LineCut e"
      by (subst (asm) embed_loop.simps)
         (simp add: Let_def nl_def [symmetric] ln'_def [symmetric] i'_def [symmetric] ee'_def [symmetric])
    show ?thesis
      by (rule "1.IH" [OF lt nl_def i'_def ln'_def ee'_def False notcut rec i'le cnt ee'_inv cont N0 "1.prems"(7)])
  qed
qed

lemma rune_chunks_drop:
  "i < length b \<Longrightarrow>
   rune_chunks (drop i b) = take (rune_size (drop i b)) (drop i b) # rune_chunks (drop (i + rune_size (drop i b)) b)"
proof -
  assume "i < length b"
  then obtain c cs where d: "drop i b = c # cs" by (cases "drop i b") auto
  have "drop (i + rune_size (drop i b)) b = drop (rune_size (drop i b)) (drop i b)"
    by (simp add: add.commute)
  then show ?thesis by (simp add: d)
qed

lemma embed_loop_RuneCut:
  assumes "embed_loop b maxLines maxRunes N i ln rc ee = RuneCut j"
    and "i \<le> length b"
    and "rune_chunks b = seen @ rune_chunks (drop i b)"
    and "concat seen = take i b"
    and "int (length seen) = rc"
  shows "take j b = concat (take (nat maxRunes) (rune_chunks b)) \<and> 0 < maxRunes
           \<and> nat maxRunes \<le> length (rune_chunks b)"
  using assms
proof (induction b maxLines maxRunes N i ln rc ee arbitrary: seen rule: embed_loop.induct)
  case (1 b maxLines maxRunes N i ln rc ee)
  from "1.prems"(1) have lt: "i < length b"
    by (subst (asm) embed_loop.simps) (auto split: if_splits)
  define nl where "nl = (fst (DecodeRune (drop i b)) = 10)"
  define i' where "i' = i + rune_size (drop i b)"
  define ln' where "ln' = (if nl then ln + 1 else ln)"
  define ee' where "ee' = (if nl \<and> ln' = N then i' else ee)"
  define seen' where "seen' = seen @ [take (rune_size (drop i b)) (drop i b)]"
  have i'le: "i' \<le> length b" unfolding i'_def by (rule rune_step_le [OF lt])
  have ch: "rune_chunks b = seen' @ rune_chunks (drop i' b)"
    using "1.prems"(3) rune_chunks_drop [OF lt] by (simp add: seen'_def i'_def)
  have cc: "concat seen' = take i' b"
    using "1.prems"(4) by (simp add: seen'_def i'_def take_add)
  have len: "int (length seen') = rc + 1"
    using "1.prems"(5) by (simp add: seen'_def)
  from "1.prems"(1) lt have nocut: "\<not> (nl \<and> ln' > maxLines)"
    by (subst (asm) embed_loop.simps) (auto simp: Let_def nl_def [symmetric] ln'_def split: if_splits)
  show ?case
  proof (cases "rc + 1 = maxRunes")
    case True
    with "1.prems"(1) lt nocut have j: "j = i'"
      by (subst (asm) embed_loop.simps) (auto simp: Let_def nl_def [symmetric] ln'_def i'_def split: if_splits)
    from True len have n: "nat maxRunes = length seen'" by linarith
    then have "take (nat maxRunes) (rune_chunks b) = seen'" using ch by simp
    moreover have "0 \<le> rc" using "1.prems"(5) by linarith
    ultimately show ?thesis using cc j n ch True by auto
  next
    case False
    with "1.prems"(1) lt nocut
    have rec: "embed_loop b maxLines maxRunes N i' ln' (rc + 1) ee' = RuneCut j"
      by (subst (asm) embed_loop.simps)
         (simp add: Let_def nl_def [symmetric] ln'_def [symmetric] i'_def [symmetric] ee'_def [symmetric])
    show ?thesis
      by (rule "1.IH" [OF lt nl_def i'_def ln'_def ee'_def nocut False rec i'le ch cc len])
  qed
qed

text \<open>Plain ASCII without line feeds: only the rune budget can cut.\<close>

lemma rune_size_ascii: "(of_char c :: nat) < 0x80 \<Longrightarrow> rune_size (c # cs) = 1"
  by (simp add: rune_size_Ascii first_Ascii_iff)

lemma RuneCountInString_ascii:
  "\<forall>c \<in> set s. (of_char c :: nat) < 0x80 \<Longrightarrow> RuneCountInString s = length s"
  by (induction s) (simp_all add: rune_size_ascii)

lemma embed_loop_ascii:
  assumes "\<forall>c \<in> set b. (of_char c :: nat) < 0x80 \<and> c \<noteq> LF" and "i \<le> length b"
  shows "embed_loop b maxLines maxRunes N i ln rc ee =
           (if rc < maxRunes \<and> maxRunes - rc \<le> int (length b - i)
            then RuneCut (i + nat (maxRunes - rc)) else NoCut)"
  using assms
proof (induction b maxLines maxRunes N i ln rc ee rule: embed_loop.induct)
  case (1 b maxLines maxRunes N i ln rc ee)
  show ?case
  proof (cases "i < length b")
    case False
    with "1.prems" show ?thesis by (subst embed_loop.simps) auto
  next
    case True
    then obtain c cs where d: "drop i b = c # cs" by (cases "drop i b") auto
    then have "c \<in> set b" by (metis in_set_dropD list.set_intros(1))
    with "1.prems" have c: "(of_char c :: nat) < 0x80" "c \<noteq> LF" by auto
    have nl: "fst (DecodeRune (drop i b)) \<noteq> 10" using d c by (simp add: DecodeRune_newline)
    have sz: "rune_size (drop i b) = 1" using d c by (simp add: rune_size_ascii)
    show ?thesis
    proof (cases "rc + 1 = maxRunes")
      case cut: True
      with True nl sz show ?thesis by (subst embed_loop.simps) (auto simp: Let_def)
    next
      case False
      have "embed_loop b maxLines maxRunes N i ln rc ee
          = embed_loop b maxLines maxRunes N (i + 1) ln (rc + 1) ee"
        using True nl sz False by (subst embed_loop.simps) (simp add: Let_def)
      also have "\<dots> = (if rc + 1 < maxRunes \<and> maxRunes - (rc + 1) \<le> int (length b - (i + 1))
            then RuneCut (i + 1 + nat (maxRunes - (rc + 1))) else NoCut)"
        using "1.IH" [OF True refl refl refl refl _ False] True nl sz "1.prems" by (simp add: Let_def)
      also have "\<dots> = (if rc < maxRunes \<and> maxRunes - rc \<le> int (length b - i)
            then RuneCut (i + nat (maxRunes - rc)) else NoCut)"
        using False True by (auto simp: nat_diff_distrib)
      finally show ?thesis .
    qed
  qed
qed

text \<open>
  Claim C9, as amended: line boundaries are LF bytes. When \<^verbatim>\<open>bytesToEmbedAndReader\<close> returns
  because the output has more than \<open>maxLines\<close> lines, and
  \<open>0 \<le> previewLines \<le> maxLines + 1\<close>, the excerpt is exactly the first \<open>previewLines\<close>
  lines of the output: it holds \<open>previewLines\<close> LF bytes and, unless empty, ends with one, and
  the reader yields the whole output. When it returns because the rune budget is used up,
  the excerpt is exactly the first \<open>maxRunes\<close> runes (scalar values as \<^verbatim>\<open>utf8.DecodeRune\<close>
  reads them, not bytes): the cut is just after the rune that used the last unit. Otherwise
  the whole output is embedded and there is no reader.
\<close>

theorem bytesToEmbedAndReader_cuts:
  "(\<forall>e. embed_loop b maxLines maxRunes previewLines 0 0 0 0 = LineCut e
          \<and> 0 \<le> previewLines \<and> previewLines \<le> maxLines + 1 \<longrightarrow>
            bytesToEmbedAndReader b maxLines maxRunes previewLines
              = (first_lines (nat previewLines) b, Some b)
            \<and> count_LF (first_lines (nat previewLines) b) = nat previewLines
            \<and> (first_lines (nat previewLines) b = [] \<or> last (first_lines (nat previewLines) b) = LF))
   \<and> (\<forall>i. embed_loop b maxLines maxRunes previewLines 0 0 0 0 = RuneCut i \<longrightarrow>
            bytesToEmbedAndReader b maxLines maxRunes previewLines
              = (concat (take (nat maxRunes) (rune_chunks b)), Some b)
            \<and> 0 < maxRunes \<and> nat maxRunes \<le> length (rune_chunks b))
   \<and> (embed_loop b maxLines maxRunes previewLines 0 0 0 0 = NoCut \<longrightarrow>
            bytesToEmbedAndReader b maxLines maxRunes previewLines = (b, None))"
proof (intro conjI allI impI)
  fix e
  assume A: "embed_loop b maxLines maxRunes previewLines 0 0 0 0 = LineCut e
          \<and> 0 \<le> previewLines \<and> previewLines \<le> maxLines + 1"
  then have L: "embed_loop b maxLines maxRunes previewLines 0 0 0 0 = LineCut e"
    and range: "0 \<le> previewLines" "previewLines \<le> maxLines + 1" by simp_all
  have "e = length (first_lines (nat previewLines) b)
        \<and> count_LF (first_lines (nat previewLines) b) = nat previewLines"
    using range by (intro embed_loop_LineCut [OF L]) auto
  then have e: "e = length (first_lines (nat previewLines) b)"
    and c: "count_LF (first_lines (nat previewLines) b) = nat previewLines" by simp_all
  from e first_lines_prefix [of "nat previewLines" b]
  show "bytesToEmbedAndReader b maxLines maxRunes previewLines = (first_lines (nat previewLines) b, Some b)"
    by (simp add: bytesToEmbedAndReader_def L)
  show "count_LF (first_lines (nat previewLines) b) = nat previewLines" by fact
  show "first_lines (nat previewLines) b = [] \<or> last (first_lines (nat previewLines) b) = LF"
    by (rule first_lines_last [OF c])
next
  fix i
  assume R: "embed_loop b maxLines maxRunes previewLines 0 0 0 0 = RuneCut i"
  have *: "take i b = concat (take (nat maxRunes) (rune_chunks b)) \<and> 0 < maxRunes
           \<and> nat maxRunes \<le> length (rune_chunks b)"
    by (rule embed_loop_RuneCut [OF R, of "[]"]) simp_all
  then show "bytesToEmbedAndReader b maxLines maxRunes previewLines
              = (concat (take (nat maxRunes) (rune_chunks b)), Some b)"
    by (simp add: bytesToEmbedAndReader_def R)
  from * show "0 < maxRunes" by simp
  from * show "nat maxRunes \<le> length (rune_chunks b)" by simp
next
  assume "embed_loop b maxLines maxRunes previewLines 0 0 0 0 = NoCut"
  then show "bytesToEmbedAndReader b maxLines maxRunes previewLines = (b, None)"
    by (simp add: bytesToEmbedAndReader_def)
qed

declare rune_chunks.simps [simp del] RuneCountInString.simps [simp del]

lemma DecodeRune_ascii: "(of_char c :: nat) < 0x80 \<Longrightarrow> DecodeRune (c # cs) = (of_char c, 1)"
  by (simp add: DecodeRune_def first_def)

lemma embed_loop_three_lines_preview_1:
  "embed_loop ''a\<newline>b\<newline>c\<newline>'' 1 1993 1 0 0 0 0 = LineCut 2"
  by (simp add: embed_loop.simps DecodeRune_ascii rune_size_def Let_def)

lemma embed_loop_two_kana:
  "embed_loop [CHR 0xE3, CHR 0x81, CHR 0x82, CHR 0xE3, CHR 0x81, CHR 0x84, CHR ''a''] 20 2 3 0 0 0 0
     = RuneCut 6"
  by (simp add: embed_loop.simps DecodeRune_def first_def outside_def byte_at_def rune_size_def Let_def)

lemma rune_chunks_two_kana:
  "rune_chunks [CHR 0xE3, CHR 0x81, CHR 0x82, CHR 0xE3, CHR 0x81, CHR 0x84, CHR ''a'']
     = [[CHR 0xE3, CHR 0x81, CHR 0x82], [CHR 0xE3, CHR 0x81, CHR 0x84], ''a'']"
  by (simp add: rune_chunks.simps DecodeRune_def first_def outside_def byte_at_def rune_size_def Let_def)

lemma embed_loop_abc_budget_2:
  "embed_loop ''abc'' 1 2 3 0 0 0 0 = RuneCut 2"
  by (simp add: embed_loop.simps DecodeRune_ascii rune_size_def Let_def)

lemma rune_chunks_abc:
  "rune_chunks ''abc'' = [''a'', ''b'', ''c'']"
  by (simp add: rune_chunks.simps rune_size_ascii)

lemma embed_loop_short:
  "embed_loop ''ab'' 20 1993 3 0 0 0 0 = NoCut"
  by (simp add: embed_loop.simps DecodeRune_ascii rune_size_def Let_def)

theorem bytesToEmbedAndReader_cuts_witness:
  "embed_loop ''a\<newline>b\<newline>c\<newline>'' 1 1993 1 0 0 0 0 = LineCut 2 \<and> (0::int) \<le> 1 \<and> (1::int) \<le> 1 + 1
   \<and> bytesToEmbedAndReader ''a\<newline>b\<newline>c\<newline>'' 1 1993 1 = (''a\<newline>'', Some ''a\<newline>b\<newline>c\<newline>'')
   \<and> embed_loop [CHR 0xE3, CHR 0x81, CHR 0x82, CHR 0xE3, CHR 0x81, CHR 0x84, CHR ''a''] 20 2 3 0 0 0 0
       = RuneCut 6
   \<and> bytesToEmbedAndReader [CHR 0xE3, CHR 0x81, CHR 0x82, CHR 0xE3, CHR 0x81, CHR 0x84, CHR ''a''] 20 2 3
       = ([CHR 0xE3, CHR 0x81, CHR 0x82, CHR 0xE3, CHR 0x81, CHR 0x84],
          Some [CHR 0xE3, CHR 0x81, CHR 0x82, CHR 0xE3, CHR 0x81, CHR 0x84, CHR ''a''])
   \<and> embed_loop ''abc'' 1 2 3 0 0 0 0 = RuneCut 2
   \<and> bytesToEmbedAndReader ''abc'' 1 2 3 = (''ab'', Some ''abc'')
   \<and> embed_loop ''ab'' 20 1993 3 0 0 0 0 = NoCut
   \<and> bytesToEmbedAndReader ''ab'' 20 1993 3 = (''ab'', None)"
  using bytesToEmbedAndReader_cuts [of "''a\<newline>b\<newline>c\<newline>''" 1 1993 1]
    bytesToEmbedAndReader_cuts [of "[CHR 0xE3, CHR 0x81, CHR 0x82, CHR 0xE3, CHR 0x81, CHR 0x84, CHR ''a'']" 20 2 3]
    bytesToEmbedAndReader_cuts [of "''abc''" 1 2 3]
    bytesToEmbedAndReader_cuts [of "''ab''" 20 1993 3]
  by (simp add: embed_loop_three_lines_preview_1 embed_loop_two_kana rune_chunks_two_kana
        embed_loop_abc_budget_2 rune_chunks_abc embed_loop_short)

text \<open>
  Claim C9 as stated fails where \<open>previewLines > maxLines + 1\<close>: with \<open>maxLines = 1\<close> and
  \<open>previewLines = 3\<close> the loop returns at the second LF, before \<open>embedEnd\<close> was ever set, and
  the excerpt is empty, not the first three lines.
\<close>

theorem bytesToEmbedAndReader_preview_counterexample:
  "embed_loop ''a\<newline>b\<newline>c\<newline>'' 1 1993 3 0 0 0 0 = LineCut 0
   \<and> bytesToEmbedAndReader ''a\<newline>b\<newline>c\<newline>'' 1 1993 3 = ([], Some ''a\<newline>b\<newline>c\<newline>'')
   \<and> first_lines 3 ''a\<newline>b\<newline>c\<newline>'' = ''a\<newline>b\<newline>c\<newline>''"
  by (simp add: bytesToEmbedAndReader_def embed_loop.simps DecodeRune_ascii rune_size_def Let_def
        numeral_3_eq_3)

lemma Split_Nil: "Split [] = Inr []"
  by (simp add: Split_def)

text \<open>
  Claim C4 (the content of an \<^verbatim>\<open>ExecutionResult\<close> is at most 2000 runes) at a failing
  input: the target succeeds, writes 2000 letters to its standard output and one to its
  standard error. The first block uses the budget up (2000 runes); the budget of the second
  is then \<open>-7\<close>, which \<^verbatim>\<open>runeCount == maxRunes\<close> never meets, and the content has 2008
  runes.
\<close>

theorem executeTarget_content_overflow:
  "executeTarget
     \<lparr>mkdir_temp = None,
      cmd_Run = (\<lambda>argv input.
        \<lparr>run_err = None, ctx_Err = CtxNone, ctx_Cause = [],
         stdout = replicate 2000 (CHR ''a''), stderr = ''e''\<rparr>),
      read_dir = Inr []\<rparr>
     defaultOptions [] (Some ''x'') False
   = Inr \<lparr>Content = [BT, BT, BT, LF] @ replicate 1993 (CHR ''a'') @ [BT, BT, BT]
                       @ [BT, BT, BT, LF] @ ''e'' @ [BT, BT, BT],
           Files = [\<lparr>Name = ''stdout.log'', Reader = replicate 2000 (CHR ''a'')\<rparr>]\<rparr>
   \<and> RuneCountInString ([BT, BT, BT, LF] @ replicate 1993 (CHR ''a'') @ [BT, BT, BT]
                       @ [BT, BT, BT, LF] @ ''e'' @ [BT, BT, BT]) = 2008"
proof -
  let ?a = "replicate 2000 (CHR ''a'')"
  have e1: "bytesToEmbedAndReader ?a 20 1993 3 = (replicate 1993 (CHR ''a''), Some ?a)"
    by (simp add: bytesToEmbedAndReader_def embed_loop_ascii)
  have e2: "bytesToEmbedAndReader ''e'' 20 (-7) 3 = (''e'', None)"
    by (simp add: bytesToEmbedAndReader_def embed_loop_ascii)
  show ?thesis
    by (simp add: executeTarget_def Split_Nil target_cli_def defaultOptions_def Let_def
        contentMax_def e1 e2 RuneCountInString_ascii)
qed

text \<open>
  Claim C6 (\<^verbatim>\<open>Split\<close> fails if and only if its input has an unmatched quote) at a failing
  input: a double-quoted string that holds a backslash followed by LF. Both quotes are
  matched, and \<^verbatim>\<open>reDq\<close> is written to turn backslash-LF into LF, but \<^verbatim>\<open>.\<close> in
  \<^verbatim>\<open>\\.\<close> does not take LF, the third alternative fails, and the opening quote falls to
  the \<^verbatim>\<open>(\S)\<close> alternative.
\<close>

theorem Split_dq_backslash_newline:
  "Split [DQ, BS, LF, DQ] = Inl (UnmatchedQuote [DQ, BS, LF, DQ])
   \<and> \<not> spec_unmatched_quote [DQ, BS, LF, DQ]
   \<and> unescape_dq [BS, LF] = [LF]"
  by (simp add: Split_def Split_loop.simps re_match_def isspace_def wordchar_def
        spec_unmatched_quote_def)

section \<open>Verification: the reconciler\<close>

lemma delete_replies_ok:
  assumes "\<forall>log c. rest log c"
  shows "delete_replies rest e replies log = (log @ map (delete_call e) replies, True)"
  using assms
  by (induction replies arbitrary: log)
     (simp_all add: Await_rest_def DeleteMessage_future_def delete_call_def)

lemma reconcile_zipped_ok:
  assumes "\<forall>r \<in> set results. Value r \<noteq> None" and "\<forall>log c. rest log c"
  shows "reconcile_zipped rest e (ZipLongest results replies) log =
           (log @ map (\<lambda>(r, reply). edit_call reply (the (Value r))) (zip results replies)
                @ map (\<lambda>r. create_call e (the (Value r))) (drop (length replies) results)
                @ map (delete_call e) (drop (length results) replies), True)"
  using assms
proof (induction results replies arbitrary: log rule: ZipLongest.induct)
  case 1
  then show ?case by simp
next
  case (2 t ts)
  then obtain v where v: "Value t = Some v" by auto
  with 2 show ?case
    by (simp add: Await_rest_def SendReply_def create_call_def)
next
  case (3 u us)
  then show ?case
    by (simp add: Await_rest_def DeleteMessage_future_def delete_call_def)
next
  case (4 t ts u us)
  then obtain v where v: "Value t = Some v" by auto
  with 4 show ?case
    by (simp add: Await_rest_def UpdateMessage_future_def edit_call_def)
qed

lemma reconcile_ok:
  assumes "\<forall>r \<in> set results. Value r \<noteq> None" and "\<forall>log c. rest log c"
  shows "reconcile rest e results replies repliesToBeDeleted =
           (map (\<lambda>(r, reply). edit_call reply (the (Value r))) (zip results replies)
              @ map (\<lambda>r. create_call e (the (Value r))) (drop (length replies) results)
              @ map (delete_call e) (drop (length results) replies)
              @ map (delete_call e) repliesToBeDeleted, True)"
  using reconcile_zipped_ok [OF assms, of e replies "[]"] delete_replies_ok [OF assms(2)]
  by (simp add: reconcile_def)

lemma reconcile_zipped_nil_value:
  assumes "Value r = None"
  shows "reconcile_zipped rest e ((Some r, reply) # zs) log = reconcile_zipped rest e zs log"
  using assms
  by (cases reply) (simp_all add: Await_rest_def SendReply_def UpdateMessage_future_def)




section \<open>Verification: parse errors\<close>

lemma executeTarget_parse_error:
  assumes "mkdir_temp env = None" and "Split commandline = Inl err"
  shows "executeTarget env opts commandline input outputCommandline = Inl (ErrParse commandline err)"
  using assms by (simp add: executeTarget_def)

text \<open>
  Claim C7, as amended: when the command line does not parse, \<^verbatim>\<open>executeTarget\<close> returns
  the parse error and no result, before the target is started; the future's result has a
  nil value, and the reconciler makes no request for its slot: no reply is created, and a
  reply paired with it is neither edited nor deleted. The error is not shown to the user
  and nothing is retried.
\<close>

theorem parse_error_makes_no_request:
  assumes "mkdir_temp env = None" and "Split commandline = Inl err"
  shows "executeTarget env opts commandline input outputCommandline = Inl (ErrParse commandline err)
       \<and> task_result (executeTarget env opts commandline input outputCommandline)
           = \<lparr>Value = None, Err = Some (ErrParse commandline err)\<rparr>
       \<and> reconcile_zipped rest e
           ((Some (task_result (executeTarget env opts commandline input outputCommandline)), reply) # zs) log
           = reconcile_zipped rest e zs log
       \<and> reconcile rest e [task_result (executeTarget env opts commandline input outputCommandline)] [] []
           = ([], True)"
proof -
  have x: "executeTarget env opts commandline input outputCommandline = Inl (ErrParse commandline err)"
    by (rule executeTarget_parse_error [OF assms])
  then have t: "task_result (executeTarget env opts commandline input outputCommandline)
           = \<lparr>Value = None, Err = Some (ErrParse commandline err)\<rparr>"
    by (simp add: task_result_def)
  have z: "reconcile_zipped rest e
           ((Some (task_result (executeTarget env opts commandline input outputCommandline)), reply) # zs) log
           = reconcile_zipped rest e zs log"
    by (rule reconcile_zipped_nil_value) (simp add: t)
  have "reconcile rest e [task_result (executeTarget env opts commandline input outputCommandline)] [] []
           = ([], True)"
    using reconcile_zipped_nil_value [of "task_result (executeTarget env opts commandline input outputCommandline)" rest e None "[]" "[]"]
    by (simp add: reconcile_def t del: reconcile_zipped.simps(2))
  with x t z show ?thesis by simp
qed

lemma Split_lone_quote: "Split (''-n '' @ [SQ]) = Inl (UnmatchedQuote (''-n '' @ [SQ]))"
  by (simp add: Split_def Split_loop.simps re_match_def isspace_def wordchar_def sep_after_def
        token_of_def)

theorem parse_error_makes_no_request_witness:
  "mkdir_temp (example_sandbox ''out'') = None
   \<and> Split (''-n '' @ [SQ]) = Inl (UnmatchedQuote (''-n '' @ [SQ]))
   \<and> executeTarget (example_sandbox ''out'') defaultOptions (''-n '' @ [SQ]) None False
       = Inl (ErrParse (''-n '' @ [SQ]) (UnmatchedQuote (''-n '' @ [SQ])))
   \<and> reconcile (\<lambda>log c. True) (example_message ''x'')
        [task_result (executeTarget (example_sandbox ''out'') defaultOptions (''-n '' @ [SQ]) None False)]
        [] []
       = ([], True)"
proof -
  have m: "mkdir_temp (example_sandbox ''out'') = None" by (simp add: example_sandbox_def)
  note * = parse_error_makes_no_request [OF m Split_lone_quote, of defaultOptions None False
      "\<lambda>log c. True" "example_message ''x''" None "[]" "[]"]
  note a = * [THEN conjunct1]
  note b = * [THEN conjunct2, THEN conjunct2, THEN conjunct2]
  show ?thesis
    apply (rule conjI [OF m])
    apply (rule conjI [OF Split_lone_quote])
    apply (rule conjI [OF a])
    apply (rule b)
    done
qed

section \<open>Verification: the commands of a message\<close>

lemma remdups_snoc: "remdups (ys @ [v]) = remdups (filter (\<lambda>x. x \<noteq> v) ys) @ [v]"
  by (induction ys) auto

lemma Dedupe_loop_eq:
  "Dedupe_loop seen xs = rev (remdups (rev (filter (\<lambda>x. x \<notin> seen) xs)))"
proof (induction xs arbitrary: seen)
  case Nil
  then show ?case by simp
next
  case (Cons v vs)
  show ?case
  proof (cases "v \<in> seen")
    case True
    with Cons show ?thesis by simp
  next
    case False
    have "filter (\<lambda>x. x \<notin> insert v seen) vs = filter (\<lambda>x. x \<noteq> v) (filter (\<lambda>x. x \<notin> seen) vs)"
      by (induction vs) auto
    with False Cons [of "insert v seen"] show ?thesis
      by (simp add: remdups_snoc rev_filter conj_commute)
  qed
qed

lemma Dedupe_eq: "Dedupe xs = rev (remdups (rev xs))"
  by (simp add: Dedupe_def Dedupe_loop_eq)

lemma length_Dedupe: "length (Dedupe xs) = card (set xs)"
  by (simp add: Dedupe_eq length_remdups_card_conv)

lemma Dedupe_distinct: "distinct xs \<Longrightarrow> Dedupe xs = xs"
  by (simp add: Dedupe_eq distinct_remdups_id)

lemma ExecuteCmds_commands:
  assumes "\<not> ShouldIgnore e"
    and "GetChannel env (ChannelID e) = Inr channelType"
    and "channelType = ChannelTypeDM
         \<or> (channelType \<noteq> ChannelTypeOther \<and> mentioning e (ClientID e))"
    and "inputFromAttachment env e (AttachmentExtensionToTreatAsInput opts) = Inr attached"
    and "commandlinesFromMentions e \<noteq> []"
  shows "ExecuteCmds env opts e =
           map (executeCmdFunc (case attached of None \<Rightarrow> inputFromCodeblock e | Some b \<Rightarrow> Some b)
                  (length (commandlinesFromMentions e) > 1))
               (Dedupe (commandlinesFromMentions e))"
  using assms by (cases channelType) (auto simp: ExecuteCmds_def Let_def)

lemma reconcile_created:
  assumes "\<forall>f \<in> set futures. \<exists>r. run_future sandboxes opts e f = Inr r" and "\<forall>log c. rest log c"
  shows "reconcile rest e (cmdResults sandboxes opts e futures) [] []
           = (map (\<lambda>f. create_call e (projr (run_future sandboxes opts e f))) futures, True)"
proof -
  have v: "\<forall>r \<in> set (cmdResults sandboxes opts e futures). Value r \<noteq> None"
    using assms(1) by (auto simp: cmdResults_def task_result_def)
  have "map (\<lambda>r. create_call e (the (Value r))) (cmdResults sandboxes opts e futures)
          = map (\<lambda>f. create_call e (projr (run_future sandboxes opts e f))) futures"
    using assms(1) by (auto simp: cmdResults_def task_result_def)
  with reconcile_ok [OF v assms(2), of e "[]" "[]"] show ?thesis by simp
qed

text \<open>
  Claim C8, as amended: for a message that is not ignored, in a direct-message channel or
  in a guild channel or thread where it mentions the bot, and with \<open>k\<close> mention lines
  (\<open>k > 0\<close>), the bot runs one future for each distinct command line, in the order of their
  first occurrences: \<^verbatim>\<open>xiter.Dedupe\<close> drops every repetition, so that there are as many
  executions as distinct lines (\<open>k\<close> when no two lines are the same). When each of them
  yields a result and every request succeeds, a new message gets exactly one reply for each
  of them, in that order.
\<close>

theorem ExecuteCmds_once_per_distinct_command:
  assumes "\<not> ShouldIgnore e"
    and "GetChannel env (ChannelID e) = Inr channelType"
    and "channelType = ChannelTypeDM
         \<or> (channelType \<noteq> ChannelTypeOther \<and> mentioning e (ClientID e))"
    and "inputFromAttachment env e (AttachmentExtensionToTreatAsInput opts) = Inr attached"
    and "commandlinesFromMentions e \<noteq> []"
  shows "ExecuteCmds env opts e =
           map (executeCmdFunc (case attached of None \<Rightarrow> inputFromCodeblock e | Some b \<Rightarrow> Some b)
                  (length (commandlinesFromMentions e) > 1))
               (Dedupe (commandlinesFromMentions e))
       \<and> Dedupe (commandlinesFromMentions e) = rev (remdups (rev (commandlinesFromMentions e)))
       \<and> length (ExecuteCmds env opts e) = card (set (commandlinesFromMentions e))
       \<and> (distinct (commandlinesFromMentions e) \<longrightarrow>
            length (ExecuteCmds env opts e) = length (commandlinesFromMentions e))
       \<and> ((\<forall>f \<in> set (ExecuteCmds env opts e). \<exists>r. run_future sandboxes opts e f = Inr r)
            \<and> (\<forall>log c. rest log c) \<longrightarrow>
            reconcile rest e (cmdResults sandboxes opts e (ExecuteCmds env opts e)) [] []
              = (map (\<lambda>f. create_call e (projr (run_future sandboxes opts e f)))
                   (ExecuteCmds env opts e), True))"
proof -
  note E = ExecuteCmds_commands [OF assms]
  have l: "length (ExecuteCmds env opts e) = card (set (commandlinesFromMentions e))"
    by (simp add: E length_Dedupe)
  have d: "distinct (commandlinesFromMentions e) \<longrightarrow>
            length (ExecuteCmds env opts e) = length (commandlinesFromMentions e)"
    by (simp add: l distinct_card)
  have r: "(\<forall>f \<in> set (ExecuteCmds env opts e). \<exists>r. run_future sandboxes opts e f = Inr r)
            \<and> (\<forall>log c. rest log c) \<longrightarrow>
            reconcile rest e (cmdResults sandboxes opts e (ExecuteCmds env opts e)) [] []
              = (map (\<lambda>f. create_call e (projr (run_future sandboxes opts e f)))
                   (ExecuteCmds env opts e), True)"
    using reconcile_created by blast
  from E Dedupe_eq [of "commandlinesFromMentions e"] l d r show ?thesis by blast
qed


declare snowflake_String.simps [simp del]

lemmas parse_defs =
  commandlinesFromMentions_def inputFromCodeblock_def mention_at_def any_mention_at_def
  HasPrefix_def HasSuffix_def isdigit_def Let_def example_message_def

lemma snowflake_String_42: "snowflake_String 42 = ''42''"
  by (simp add: snowflake_String.simps digit_def)

lemma example_message_facts:
  "\<not> ShouldIgnore (example_message text)"
  "mentioning (example_message text) (ClientID (example_message text))"
  "ChannelID (example_message text) = 7"
  "inputFromAttachment env (example_message text) ext = Inr None"
  by (simp_all add: ShouldIgnore_def mentioning_def example_message_def inputFromAttachment_def)

lemma same_twice_parsed:
  "commandlinesFromMentions (example_message text_same_twice) = ['' -n'', '' -n'']"
  "inputFromCodeblock (example_message text_same_twice) = Some ''abc''"
  by (simp_all add: parse_defs snowflake_String_42 text_same_twice_def)

lemma two_commands_parsed:
  "commandlinesFromMentions (example_message text_two_commands) = ['' -E'', '' -n'']"
  "inputFromCodeblock (example_message text_two_commands) = Some ''abc''"
  by (simp_all add: parse_defs snowflake_String_42 text_two_commands_def)

lemma unmatched_quote_parsed:
  "commandlinesFromMentions (example_message text_unmatched_quote) = ['' -n '' @ [SQ]]"
  "inputFromCodeblock (example_message text_unmatched_quote) = None"
  by (simp_all add: parse_defs snowflake_String_42 text_unmatched_quote_def)



text \<open>
  Claim C8 as stated fails when two mention lines are the same: the two lines of this
  message give two command lines, and \<^verbatim>\<open>ExecuteCmds\<close> returns one future.
\<close>

theorem ExecuteCmds_identical_lines_counterexample:
  "commandlinesFromMentions (example_message text_same_twice) = ['' -n'', '' -n'']
   \<and> ExecuteCmds (example_rest_env ChannelTypeGuildText) defaultOptions (example_message text_same_twice)
       = [FutExec '' -n'' (Some ''abc'') True]"
  by (simp add: ExecuteCmds_def example_message_facts example_rest_env_def same_twice_parsed
        Dedupe_def executeCmdFunc_def Let_def)

lemma Split_dash: "wordchar c \<Longrightarrow> Split (CHR '' '' # CHR ''-'' # [c]) = Inr [[CHR ''-'', c]]"
  by (simp add: Split_def Split_loop.simps re_match_def isspace_def wordchar_def sep_after_def
        token_of_def)

lemma embed_abc: "4 < maxRunes \<Longrightarrow> bytesToEmbedAndReader ''abc$'' 20 maxRunes 3 = (''abc$'', None)"
  by (simp add: bytesToEmbedAndReader_def embed_loop_ascii)

lemma Join_cat: "safechar c \<Longrightarrow> c \<noteq> LF \<Longrightarrow> Join [''cat'', [CHR ''-'', c]] = ''cat -'' @ [c]"
  by (simp add: Join_def Escape_def safechar_def esc_body_def [symmetric] esc_body_Cons)

lemma run_cat:
  assumes "wordchar c" "safechar c" "c \<noteq> LF"
  shows "run_future (\<lambda>cmd. example_sandbox ''abc$'') defaultOptions e
           (FutExec (CHR '' '' # CHR ''-'' # [c]) (Some ''abc'') True)
         = Inr \<lparr>Content = [BT] @ ''cat -'' @ [c] @ [BT, LF, BT, BT, BT, LF] @ ''abc$'' @ [BT, BT, BT],
                 Files = []\<rparr>"
proof -
  have j: "Join (target_cli defaultOptions [[CHR ''-'', c]] (Some ''abc'')) = ''cat -'' @ [c]"
    using Join_cat [OF assms(2,3)] by (simp add: target_cli_def defaultOptions_def)
  have a: "(of_char c :: nat) < 0x80" using assms(2) by (rule safechar_ascii)
  have r: "RuneCountInString (BT # CHR ''c'' # CHR ''a'' # CHR ''t'' # CHR '' '' # CHR ''-'' # c # [BT, LF]) = 9"
    using a by (subst RuneCountInString_ascii) auto
  have h: "RuneCountInString [BT, BT, BT, LF] = 4" "RuneCountInString [BT, BT, BT] = 3"
    by (simp_all add: RuneCountInString_ascii)
  show ?thesis
    using j r h embed_abc [of 1984]
    by (simp add: run_future_def executeTarget_def example_sandbox_def Split_dash [OF assms(1)]
        Let_def contentMax_def defaultOptions_def)
qed

lemma example_message_fields:
  "HasThread (Message (example_message text)) = False"
  "MessageID (example_message text) = 100"
  "ChannelID (example_message text) = 7"
  by (simp_all add: example_message_def)

lemma two_commands_futures:
  "ExecuteCmds (example_rest_env ChannelTypeGuildText) defaultOptions (example_message text_two_commands)
     = [FutExec '' -E'' (Some ''abc'') True, FutExec '' -n'' (Some ''abc'') True]"
  by (simp add: ExecuteCmds_def example_message_facts example_rest_env_def two_commands_parsed
        Dedupe_def executeCmdFunc_def Let_def)

lemma run_cat_E:
  "run_future (\<lambda>cmd. example_sandbox ''abc$'') defaultOptions e (FutExec '' -E'' (Some ''abc'') True)
     = Inr \<lparr>Content = [BT] @ ''cat -E'' @ [BT, LF, BT, BT, BT, LF] @ ''abc$'' @ [BT, BT, BT], Files = []\<rparr>"
  using run_cat [of "CHR ''E''" e] by (simp add: wordchar_def isspace_def safechar_def)

lemma run_cat_n:
  "run_future (\<lambda>cmd. example_sandbox ''abc$'') defaultOptions e (FutExec '' -n'' (Some ''abc'') True)
     = Inr \<lparr>Content = [BT] @ ''cat -n'' @ [BT, LF, BT, BT, BT, LF] @ ''abc$'' @ [BT, BT, BT], Files = []\<rparr>"
  using run_cat [of "CHR ''n''" e] by (simp add: wordchar_def isspace_def safechar_def)

theorem ExecuteCmds_once_per_distinct_command_witness:
  "\<not> ShouldIgnore (example_message text_two_commands)
   \<and> GetChannel (example_rest_env ChannelTypeGuildText) (ChannelID (example_message text_two_commands))
       = Inr ChannelTypeGuildText
   \<and> mentioning (example_message text_two_commands) (ClientID (example_message text_two_commands))
   \<and> inputFromAttachment (example_rest_env ChannelTypeGuildText) (example_message text_two_commands)
        (AttachmentExtensionToTreatAsInput defaultOptions) = Inr None
   \<and> commandlinesFromMentions (example_message text_two_commands) = ['' -E'', '' -n'']
   \<and> ExecuteCmds (example_rest_env ChannelTypeGuildText) defaultOptions (example_message text_two_commands)
       = [FutExec '' -E'' (Some ''abc'') True, FutExec '' -n'' (Some ''abc'') True]
   \<and> reconcile (\<lambda>log c. True) (example_message text_two_commands)
        (cmdResults (\<lambda>cmd. example_sandbox ''abc$'') defaultOptions (example_message text_two_commands)
           (ExecuteCmds (example_rest_env ChannelTypeGuildText) defaultOptions
              (example_message text_two_commands))) [] []
       = ([CreateMessage 7 ([BT] @ ''cat -E'' @ [BT, LF, BT, BT, BT, LF] @ ''abc$'' @ [BT, BT, BT]) []
             (Some 100),
           CreateMessage 7 ([BT] @ ''cat -n'' @ [BT, LF, BT, BT, BT, LF] @ ''abc$'' @ [BT, BT, BT]) []
             (Some 100)], True)"
proof -
  let ?e = "example_message text_two_commands"
  let ?env = "example_rest_env ChannelTypeGuildText"
  have h1: "\<not> ShouldIgnore ?e" by (rule example_message_facts)
  have h2: "GetChannel ?env (ChannelID ?e) = Inr ChannelTypeGuildText"
    by (simp add: example_rest_env_def)
  have h3': "mentioning ?e (ClientID ?e)" by (rule example_message_facts)
  then have h3: "ChannelTypeGuildText = ChannelTypeDM
         \<or> (ChannelTypeGuildText \<noteq> ChannelTypeOther \<and> mentioning ?e (ClientID ?e))" by simp
  have h4: "inputFromAttachment ?env ?e (AttachmentExtensionToTreatAsInput defaultOptions) = Inr None"
    by (rule example_message_facts)
  have h5: "commandlinesFromMentions ?e \<noteq> []" by (simp add: two_commands_parsed)
  note T = ExecuteCmds_once_per_distinct_command [OF h1 h2 h3 h4 h5,
      of "\<lambda>cmd. example_sandbox ''abc$''" "\<lambda>log c. True"]
  have ok: "\<forall>f \<in> set (ExecuteCmds ?env defaultOptions ?e).
              \<exists>r. run_future (\<lambda>cmd. example_sandbox ''abc$'') defaultOptions ?e f = Inr r"
    by (simp add: two_commands_futures run_cat_E run_cat_n)
  from T ok have "reconcile (\<lambda>log c. True) ?e
        (cmdResults (\<lambda>cmd. example_sandbox ''abc$'') defaultOptions ?e (ExecuteCmds ?env defaultOptions ?e)) [] []
      = (map (\<lambda>f. create_call ?e (projr (run_future (\<lambda>cmd. example_sandbox ''abc$'') defaultOptions ?e f)))
           (ExecuteCmds ?env defaultOptions ?e), True)"
    by blast
  then have r: "reconcile (\<lambda>log c. True) ?e
        (cmdResults (\<lambda>cmd. example_sandbox ''abc$'') defaultOptions ?e (ExecuteCmds ?env defaultOptions ?e)) [] []
       = ([CreateMessage 7 ([BT] @ ''cat -E'' @ [BT, LF, BT, BT, BT, LF] @ ''abc$'' @ [BT, BT, BT]) []
             (Some 100),
           CreateMessage 7 ([BT] @ ''cat -n'' @ [BT, LF, BT, BT, BT, LF] @ ''abc$'' @ [BT, BT, BT]) []
             (Some 100)], True)"
    by (simp add: two_commands_futures run_cat_E run_cat_n create_call_def example_message_fields)
  from h1 h2 h3' h4 two_commands_parsed(1) two_commands_futures r show ?thesis
    by (intro conjI)
qed

text \<open>
  Claim C7 as stated fails: the message \<^verbatim>\<open><@42> -n '\<close> has one command line, whose quote is
  unmatched. Its future fails with the parse error, and with every request succeeding the
  reconciler makes none: no reply shows the error.
\<close>

theorem parse_error_reply_counterexample:
  "ExecuteCmds (example_rest_env ChannelTypeGuildText) defaultOptions (example_message text_unmatched_quote)
     = [FutExec ('' -n '' @ [SQ]) None False]
   \<and> cmdResults (\<lambda>cmd. example_sandbox ''abc$'') defaultOptions (example_message text_unmatched_quote)
        [FutExec ('' -n '' @ [SQ]) None False]
     = [\<lparr>Value = None, Err = Some (ErrParse ('' -n '' @ [SQ]) (UnmatchedQuote ('' -n '' @ [SQ])))\<rparr>]
   \<and> reconcile (\<lambda>log c. True) (example_message text_unmatched_quote)
        (cmdResults (\<lambda>cmd. example_sandbox ''abc$'') defaultOptions (example_message text_unmatched_quote)
           (ExecuteCmds (example_rest_env ChannelTypeGuildText) defaultOptions
              (example_message text_unmatched_quote))) [] []
     = ([], True)"
proof -
  have s: "Split ('' -n '' @ [SQ]) = Inl (UnmatchedQuote ('' -n '' @ [SQ]))"
    by (simp add: Split_def Split_loop.simps re_match_def isspace_def wordchar_def sep_after_def
        token_of_def)
  have t: "TrimSpace_empty ('' -n '' @ [SQ]) = False"
    by (simp add: DecodeRune_ascii rune_size_ascii unicode_IsSpace_def)
  have f: "ExecuteCmds (example_rest_env ChannelTypeGuildText) defaultOptions
             (example_message text_unmatched_quote) = [FutExec ('' -n '' @ [SQ]) None False]"
    using t
    by (simp add: ExecuteCmds_def example_message_facts example_rest_env_def unmatched_quote_parsed
        Dedupe_def executeCmdFunc_def Let_def)
  have c: "cmdResults (\<lambda>cmd. example_sandbox ''abc$'') defaultOptions (example_message text_unmatched_quote)
        [FutExec ('' -n '' @ [SQ]) None False]
     = [\<lparr>Value = None, Err = Some (ErrParse ('' -n '' @ [SQ]) (UnmatchedQuote ('' -n '' @ [SQ])))\<rparr>]"
    using s by (simp add: cmdResults_def run_future_def executeTarget_def example_sandbox_def task_result_def)
  have r: "reconcile (\<lambda>log c. True) (example_message text_unmatched_quote)
        (cmdResults (\<lambda>cmd. example_sandbox ''abc$'') defaultOptions (example_message text_unmatched_quote)
           (ExecuteCmds (example_rest_env ChannelTypeGuildText) defaultOptions
              (example_message text_unmatched_quote))) [] []
     = ([], True)"
    unfolding f c by (simp add: reconcile_def Await_rest_def SendReply_def)
  from f c r show ?thesis by (intro conjI)
qed


end
